theory Spec2Isabelle
  imports Main "HOL-Library.AList"
begin

section \<open>Values, property keys and the object heap\<close>

text \<open>
  The repository is a sequence of listings that grow one reactive runtime: a bucket store
  (\<open>effectsBuckets\<close>), \<open>effect\<close> with \<open>cleanup\<close>, the stack of running effects,
  \<open>track\<close> and \<open>trigger\<close>, the proxies built by \<open>createReactive\<close>, and on top of
  them \<open>computed\<close> and \<open>watch\<close>. The development embeds the last listing of each function
  (the array listing for the runtime and the proxies, \<open>7.computed.ts\<close> for \<open>computed\<close>,
  \<open>10.watch-complete.ts\<close> for \<open>watch\<close>); \<open>cleanup\<close> and \<open>track\<close> are the same text in
  every listing from \<open>3.branch-and-cleanup.ts\<close> on.

  The runtime itself is translated function by function. What the runtime is handed from
  outside, the user's functions and the host's objects, is data here:
  \<^item> a property key is an array index (\<open>Index\<close>, the canonical numeric string), another
    string (\<open>Name\<close>, assumed not to convert to a number) or a symbol;
  \<^item> numbers are integers and \<open>NaN\<close>; array holes read as \<open>undefined\<close>;
  \<^item> an object is a cell of the heap, addressed by its position: a plain object with its
    own properties and prototype, an array with its elements and further own properties,
    or a proxy with its target and the handler it was built with;
  \<^item> a user function is a list of statements over expressions that read and write
    properties, branch, log, register nested effects, throw and catch (the handler of a
    \<open>try\<close> statement does not look at the exception it caught).
\<close>

datatype key = Index nat | Name string | Sym nat

definition ITERATE_KEY :: key where
  "ITERATE_KEY = Sym 0"

definition RAW_KEY :: key where
  "RAW_KEY = Sym 1"

fun is_symbol :: "key \<Rightarrow> bool" where
  "is_symbol (Sym _) = True"
| "is_symbol _ = False"

datatype val =
    Undefined | Null | Bool bool | Num int | NaN | Str string
  | Ref nat
  | Native string
  | Instrumented string

text \<open>
  \<open>Basic\<close> is the handler of the early listings (\<open>get\<close> tracks and reads, \<open>set\<close> writes
  and triggers); \<open>Reactive isShallow isReadonly\<close> is the handler of \<open>createReactive\<close>.
\<close>

datatype handler = Basic | Reactive bool bool

datatype hobj =
    PlainObj "(key \<times> val) list" "nat option"
  | ArrayObj "val list" "(key \<times> val) list"
  | ProxyObj nat handler

datatype TriggerType = ADD | SET | DELETE

subsection \<open>User functions\<close>

datatype expr =
    Lit val
  | Arg nat
  | Get expr key
  | Plus expr expr
  | StrictEq expr expr
  | Cond expr expr expr
  | Call expr string expr

datatype cmd =
    Do expr
  | Log "expr list"
  | Assign expr key expr
  | If expr "cmd list" "cmd list"
  | Effect "cmd list"
  | Throw expr
  | Try "cmd list" "cmd list"
  | OnInvalidate "cmd list"
  | ReadValue nat

text \<open>
  A function value of the user: statements and a returned expression
  (\<open>() => { body; return r }\<close>), an expression whose value is returned after the
  statements (\<open>() => { const v = r; body; return v }\<close>), or the wrapper
  \<open>() => traverse(source)\<close> that \<open>watch\<close> builds for an object source.
\<close>

datatype func = Fn "cmd list" expr | FnThen expr "cmd list" | TraverseFn val

subsection \<open>The runtime's state\<close>

datatype sched = ComputedScheduler nat | WatchJob nat

text \<open>
  An \<open>effectFn\<close> object: the wrapped function with the environment it closes over (the
  arguments of the enclosing callback and its \<open>onInvalidate\<close>, if any), the list \<open>deps\<close>
  of the dependency sets it was added to (a set is named by the target and key it is stored
  under, since a set is created once per pair and never replaced), and its options.
\<close>

record EffectFn =
  fn :: func
  env :: "val list \<times> nat option"
  deps :: "(nat \<times> key) list"
  scheduler :: "sched option"
  lazy :: bool

record computed_cell =
  cacheValue :: val
  dirty :: bool
  c_effectFn :: nat

record watcher =
  cb :: "cmd list"
  oldValue :: val
  newValue :: val
  w_cleanup :: "(cmd list \<times> val list \<times> nat option) option"
  w_effectFn :: nat

text \<open>
  \<open>trace\<close> is a history variable: the runtime appends to it and never reads it. It
  records that an effect function started (\<open>Ran\<close>), that \<open>track\<close> subscribed an effect
  (\<open>Tracked\<close>), that \<open>trigger\<close> was called (\<open>Triggered\<close>), that a watcher's job started
  (\<open>Job\<close>), that a watcher's callback was called with a new and an old value
  (\<open>Called\<close>), that a \<open>try\<close> statement caught an exception (\<open>Caught\<close>) and that the
  getter of a computed value has returned and its result is being cached (\<open>Recomputed\<close>).
\<close>

datatype event =
    Ran nat
  | Tracked nat nat key
  | Triggered nat key TriggerType val
  | Job nat
  | Called nat val val
  | Caught
  | Recomputed nat

record state =
  heap :: "hobj list"
  effectsBuckets :: "(nat \<times> (key \<times> nat list) list) list"
  effectFns :: "EffectFn list"
  activeEffect :: "nat option"
  effectStack :: "nat list"
  shouldTrack :: bool
  reactiveMap :: "(nat \<times> nat) list"
  computeds :: "computed_cell list"
  watchers :: "watcher list"
  console :: "val list list"
  trace :: "event list"

datatype 'a outcome = Normal 'a state | Threw val state

fun state_of :: "'a outcome \<Rightarrow> state" where
  "state_of (Normal _ s) = s"
| "state_of (Threw _ s) = s"

definition init :: "hobj list \<Rightarrow> state" where
  "init h = \<lparr>heap = h, effectsBuckets = [], effectFns = [], activeEffect = None,
     effectStack = [], shouldTrack = True, reactiveMap = [], computeds = [], watchers = [],
     console = [], trace = []\<rparr>"

definition lookup_obj :: "state \<Rightarrow> nat \<Rightarrow> hobj option" where
  "lookup_obj s r = (if r < length (heap s) then Some (heap s ! r) else None)"

definition emit :: "event \<Rightarrow> state \<Rightarrow> state" where
  "emit ev s = s\<lparr>trace := trace s @ [ev]\<rparr>"

section \<open>The dependency store\<close>

definition subscribers :: "state \<Rightarrow> nat \<Rightarrow> key \<Rightarrow> nat list" where
  "subscribers s target key =
     (case map_of (effectsBuckets s) target of
        None \<Rightarrow> []
      | Some depsMap \<Rightarrow> (case map_of depsMap key of None \<Rightarrow> [] | Some d \<Rightarrow> d))"

definition deps_of :: "state \<Rightarrow> nat \<Rightarrow> (nat \<times> key) list" where
  "deps_of s e = (if e < length (effectFns s) then deps (effectFns s ! e) else [])"

text \<open>\<open>deps.delete(effectFn)\<close> on the set stored under \<open>(target, key)\<close>.\<close>

definition bucket_delete ::
  "nat \<Rightarrow> nat \<times> key \<Rightarrow> (nat \<times> (key \<times> nat list) list) list \<Rightarrow> (nat \<times> (key \<times> nat list) list) list"
where
  "bucket_delete e tk b =
     (case map_of b (fst tk) of
        None \<Rightarrow> b
      | Some depsMap \<Rightarrow>
          (case map_of depsMap (snd tk) of
             None \<Rightarrow> b
           | Some d \<Rightarrow> AList.update (fst tk) (AList.update (snd tk) (removeAll e d) depsMap) b))"

text \<open>
  \<open>cleanup\<close>: the loop deletes the effect from every set of \<open>deps\<close>, then the list is
  emptied.
\<close>

definition cleanup :: "nat \<Rightarrow> state \<Rightarrow> state" where
  "cleanup e s =
     s\<lparr>effectsBuckets := fold (bucket_delete e) (deps_of s e) (effectsBuckets s),
       effectFns := (effectFns s)[e := (effectFns s ! e)\<lparr>deps := []\<rparr>]\<rparr>"

text \<open>
  The part of \<open>track\<close> after the guard: find or create the map of the target and the set
  of the key, add the active effect, push the set on the effect's \<open>deps\<close>.
\<close>

definition track_add :: "nat \<Rightarrow> nat \<Rightarrow> key \<Rightarrow> state \<Rightarrow> state" where
  "track_add e target key s =
     (let depsMap = (case map_of (effectsBuckets s) target of None \<Rightarrow> [] | Some m \<Rightarrow> m);
          d = (case map_of depsMap key of None \<Rightarrow> [] | Some d \<Rightarrow> d);
          d' = (if e \<in> set d then d else d @ [e])
      in emit (Tracked e target key)
          (s\<lparr>effectsBuckets := AList.update target (AList.update key d' depsMap) (effectsBuckets s),
             effectFns := (effectFns s)[e := (effectFns s ! e)\<lparr>deps := deps (effectFns s ! e) @ [(target, key)]\<rparr>]\<rparr>))"

section \<open>Proxies: reading\<close>

fun resolve :: "hobj list \<Rightarrow> nat \<Rightarrow> nat \<Rightarrow> nat option" where
  "resolve h 0 r = None"
| "resolve h (Suc n) r =
     (if r < length h
      then (case h ! r of ProxyObj t _ \<Rightarrow> resolve h n t | _ \<Rightarrow> Some r)
      else None)"

text \<open>
  The object behind a chain of proxies: the internal methods that the handlers do not
  trap (\<open>[[GetOwnProperty]]\<close>, \<open>[[DefineOwnProperty]]\<close>, \<open>[[GetPrototypeOf]]\<close>) and
  \<open>Array.isArray\<close> go there.
\<close>

definition raw_of :: "state \<Rightarrow> nat \<Rightarrow> nat option" where
  "raw_of s r = resolve (heap s) (Suc (length (heap s))) r"

definition isArray :: "state \<Rightarrow> nat \<Rightarrow> bool" where
  "isArray s r =
     (case raw_of s r of
        None \<Rightarrow> False
      | Some r' \<Rightarrow> (case heap s ! r' of ArrayObj _ _ \<Rightarrow> True | _ \<Rightarrow> False))"

definition hasOwnProperty :: "state \<Rightarrow> nat \<Rightarrow> key \<Rightarrow> bool" where
  "hasOwnProperty s r key =
     (case raw_of s r of
        None \<Rightarrow> False
      | Some r' \<Rightarrow>
          (case heap s ! r' of
             PlainObj props _ \<Rightarrow> map_of props key \<noteq> None
           | ArrayObj elems props \<Rightarrow>
               (case key of
                  Index i \<Rightarrow> i < length elems
                | _ \<Rightarrow> key = Name ''length'' \<or> map_of props key \<noteq> None)
           | ProxyObj _ _ \<Rightarrow> False))"

text \<open>The search methods are the part of \<open>arrayInstrumentations\<close> that is embedded.\<close>

definition arrayInstrumentations :: "string list" where
  "arrayInstrumentations = [''includes'', ''indexOf'', ''lastIndexOf'']"

fun array_get :: "val list \<Rightarrow> (key \<times> val) list \<Rightarrow> key \<Rightarrow> val" where
  "array_get elems props (Index i) = (if i < length elems then elems ! i else Undefined)"
| "array_get elems props (Name m) =
     (if m = ''length'' then Num (int (length elems))
      else (case map_of props (Name m) of
              Some v \<Rightarrow> v
            | None \<Rightarrow> if m \<in> set arrayInstrumentations then Native m else Undefined))"
| "array_get elems props (Sym n) = (case map_of props (Sym n) of Some v \<Rightarrow> v | None \<Rightarrow> Undefined)"

definition createReactive :: "nat \<Rightarrow> bool \<Rightarrow> bool \<Rightarrow> state \<Rightarrow> nat \<times> state" where
  "createReactive target isShallow isReadonly s =
     (length (heap s), s\<lparr>heap := heap s @ [ProxyObj target (Reactive isShallow isReadonly)]\<rparr>)"

definition reactive :: "nat \<Rightarrow> state \<Rightarrow> nat \<times> state" where
  "reactive target s =
     (case map_of (reactiveMap s) target of
        Some existProxy \<Rightarrow> (existProxy, s)
      | None \<Rightarrow>
          (let (newProxy, s1) = createReactive target False False s
           in (newProxy, s1\<lparr>reactiveMap := AList.update target newProxy (reactiveMap s1)\<rparr>)))"

definition shallowReactive :: "nat \<Rightarrow> state \<Rightarrow> nat \<times> state" where
  "shallowReactive target s = createReactive target True False s"

definition readonly :: "nat \<Rightarrow> state \<Rightarrow> nat \<times> state" where
  "readonly target s = createReactive target False True s"

definition shallowReadonly :: "nat \<Rightarrow> state \<Rightarrow> nat \<times> state" where
  "shallowReadonly target s = createReactive target True True s"

definition wrap_result :: "bool \<Rightarrow> val \<Rightarrow> state \<Rightarrow> val \<times> state" where
  "wrap_result isReadonly res s =
     (case res of
        Ref r \<Rightarrow> (let (p, s1) = (if isReadonly then readonly r s else reactive r s) in (Ref p, s1))
      | _ \<Rightarrow> (res, s))"

text \<open>
  \<open>get_any n r key receiver\<close> is \<open>r.[[Get]](key, receiver)\<close>: an ordinary object looks
  at its own properties and then asks its prototype; a proxy runs the \<open>get\<close> trap of its
  handler. \<open>track\<close> reads \<open>target[key]\<close> when there is no active effect or tracking is
  suspended, as the source's guard does. The first argument bounds the depth of the calls;
  \<open>None\<close> means that the bound was reached (or that a reference points outside the heap).
\<close>

fun get_any :: "nat \<Rightarrow> nat \<Rightarrow> key \<Rightarrow> nat \<Rightarrow> state \<Rightarrow> (val \<times> state) option"
and track :: "nat \<Rightarrow> nat \<Rightarrow> key \<Rightarrow> state \<Rightarrow> state option"
where
  "get_any 0 r key receiver s = None"
| "get_any (Suc n) r key receiver s =
     (case lookup_obj s r of
        None \<Rightarrow> None
      | Some (PlainObj props proto) \<Rightarrow>
          (case map_of props key of
             Some v \<Rightarrow> Some (v, s)
           | None \<Rightarrow>
               (case proto of
                  None \<Rightarrow> Some (Undefined, s)
                | Some p \<Rightarrow> get_any n p key receiver s))
      | Some (ArrayObj elems props) \<Rightarrow> Some (array_get elems props key, s)
      | Some (ProxyObj target Basic) \<Rightarrow>
          (case track n target key s of
             None \<Rightarrow> None
           | Some s1 \<Rightarrow> get_any n target key target s1)
      | Some (ProxyObj target (Reactive isShallow isReadonly)) \<Rightarrow>
          if key = RAW_KEY then Some (Ref target, s)
          else if isArray s target \<and> key \<in> Name ` set arrayInstrumentations
          then Some (Instrumented (case key of Name m \<Rightarrow> m | _ \<Rightarrow> []), s)
          else
            (case (if \<not> isReadonly \<and> \<not> is_symbol key then track n target key s else Some s) of
               None \<Rightarrow> None
             | Some s1 \<Rightarrow>
                 (case get_any n target key receiver s1 of
                    None \<Rightarrow> None
                  | Some (res, s2) \<Rightarrow>
                      if isShallow then Some (res, s2)
                      else Some (wrap_result isReadonly res s2))))"
| "track 0 target key s = None"
| "track (Suc n) target key s =
     (case activeEffect s of
        None \<Rightarrow> map_option snd (get_any n target key target s)
      | Some e \<Rightarrow>
          if \<not> shouldTrack s then map_option snd (get_any n target key target s)
          else Some (track_add e target key s))"

section \<open>Operators of the host language\<close>

fun truthy :: "val \<Rightarrow> bool" where
  "truthy Undefined = False"
| "truthy Null = False"
| "truthy (Bool b) = b"
| "truthy (Num n) = (n \<noteq> 0)"
| "truthy NaN = False"
| "truthy (Str t) = (t \<noteq> [])"
| "truthy _ = True"

text \<open>
  \<open>ToNumber\<close>; \<open>None\<close> is \<open>NaN\<close>. Strings and objects are taken as not numeric
  (the host converts a string that spells a number, and the empty string, to a number).
\<close>

fun to_number :: "val \<Rightarrow> int option" where
  "to_number Null = Some 0"
| "to_number (Bool b) = Some (if b then 1 else 0)"
| "to_number (Num n) = Some n"
| "to_number _ = None"

text \<open>\<open>a === b\<close>: \<open>NaN\<close> is not equal to itself, objects are compared by identity.\<close>

definition strict_eq :: "val \<Rightarrow> val \<Rightarrow> bool" where
  "strict_eq a b = (a \<noteq> NaN \<and> a = b)"

definition same_value_zero :: "val \<Rightarrow> val \<Rightarrow> bool" where
  "same_value_zero a b = (a = b)"

text \<open>
  \<open>a + b\<close> for two strings and for two values that convert to numbers. The sum is the
  exact integer (the host rounds beyond \<open>2^53\<close>).
\<close>

definition js_plus :: "val \<Rightarrow> val \<Rightarrow> val" where
  "js_plus a b =
     (case (a, b) of
        (Str x, Str y) \<Rightarrow> Str (x @ y)
      | _ \<Rightarrow> (case (to_number a, to_number b) of (Some x, Some y) \<Rightarrow> Num (x + y) | _ \<Rightarrow> NaN))"

definition TypeError :: val where
  "TypeError = Str ''TypeError''"

definition RangeError :: val where
  "RangeError = Str ''RangeError''"

section \<open>The array search methods\<close>

fun search_from ::
  "nat \<Rightarrow> (val \<Rightarrow> val \<Rightarrow> bool) \<Rightarrow> nat \<Rightarrow> val \<Rightarrow> nat list \<Rightarrow> state \<Rightarrow> (nat option \<times> state) option"
where
  "search_from n eq this x [] s = Some (None, s)"
| "search_from n eq this x (k # ks) s =
     (case get_any n this (Index k) this s of
        None \<Rightarrow> None
      | Some (elementK, s1) \<Rightarrow>
          if eq elementK x then Some (Some k, s1) else search_from n eq this x ks s1)"

definition to_length :: "val \<Rightarrow> nat" where
  "to_length v = (case to_number v of Some n \<Rightarrow> nat n | None \<Rightarrow> 0)"

text \<open>
  \<open>Array.prototype.includes\<close>, \<open>indexOf\<close> and \<open>lastIndexOf\<close> applied to \<open>this\<close> with
  one argument: read \<open>length\<close>, then read the indices in order through \<open>[[Get]]\<close>
  (so through the traps, when \<open>this\<close> is a proxy) and compare. \<open>includes\<close> answers a
  boolean, the other two an index or \<open>-1\<close>. Arrays are dense here, so every index below
  the length is visited (the host's \<open>indexOf\<close> and \<open>lastIndexOf\<close> skip holes).
\<close>

definition originMethod :: "nat \<Rightarrow> string \<Rightarrow> nat \<Rightarrow> val \<Rightarrow> state \<Rightarrow> (val \<times> state) option" where
  "originMethod n method this x s =
     (case get_any n this (Name ''length'') this s of
        None \<Rightarrow> None
      | Some (len, s1) \<Rightarrow>
          if method = ''includes''
          then map_option (\<lambda>(r, s2). (Bool (r \<noteq> None), s2))
                 (search_from n same_value_zero this x [0 ..< to_length len] s1)
          else if method = ''indexOf''
          then map_option (\<lambda>(r, s2). (case r of None \<Rightarrow> Num (- 1) | Some k \<Rightarrow> Num (int k), s2))
                 (search_from n strict_eq this x [0 ..< to_length len] s1)
          else map_option (\<lambda>(r, s2). (case r of None \<Rightarrow> Num (- 1) | Some k \<Rightarrow> Num (int k), s2))
                 (search_from n strict_eq this x (rev [0 ..< to_length len]) s1))"

text \<open>
  The function stored in \<open>arrayInstrumentations\<close> for a search method: search through
  \<open>this\<close>, and when the result is \<open>false\<close> search \<open>this[RAW_KEY]\<close>.
\<close>

definition instrumented :: "nat \<Rightarrow> string \<Rightarrow> nat \<Rightarrow> val \<Rightarrow> state \<Rightarrow> val outcome option" where
  "instrumented n method this x s =
     (case originMethod n method this x s of
        None \<Rightarrow> None
      | Some (res, s1) \<Rightarrow>
          if res = Bool False
          then (case get_any n this RAW_KEY this s1 of
                  None \<Rightarrow> None
                | Some (Ref raw, s2) \<Rightarrow>
                    map_option (\<lambda>(res2, s3). Normal res2 s3) (originMethod n method raw x s2)
                | Some (_, s2) \<Rightarrow> Some (Threw TypeError s2))
          else Some (Normal res s1))"

section \<open>Expressions of user functions\<close>

definition call_method :: "nat \<Rightarrow> val \<Rightarrow> nat \<Rightarrow> val \<Rightarrow> state \<Rightarrow> val outcome option" where
  "call_method n f this x s =
     (case f of
        Instrumented m \<Rightarrow> instrumented n m this x s
      | Native m \<Rightarrow> map_option (\<lambda>(res, s1). Normal res s1) (originMethod n m this x s)
      | _ \<Rightarrow> Some (Threw TypeError s))"

fun eval :: "nat \<Rightarrow> val list \<Rightarrow> expr \<Rightarrow> state \<Rightarrow> val outcome option" where
  "eval n args (Lit v) s = Some (Normal v s)"
| "eval n args (Arg i) s = Some (Normal (if i < length args then args ! i else Undefined) s)"
| "eval n args (Get e key) s =
     (case eval n args e s of
        Some (Normal (Ref r) s1) \<Rightarrow> map_option (\<lambda>(v, s2). Normal v s2) (get_any n r key r s1)
      | Some (Normal Undefined s1) \<Rightarrow> Some (Threw TypeError s1)
      | Some (Normal Null s1) \<Rightarrow> Some (Threw TypeError s1)
      | Some (Normal _ s1) \<Rightarrow> Some (Normal Undefined s1)
      | r \<Rightarrow> r)"
| "eval n args (Plus a b) s =
     (case eval n args a s of
        Some (Normal x s1) \<Rightarrow>
          (case eval n args b s1 of
             Some (Normal y s2) \<Rightarrow> Some (Normal (js_plus x y) s2)
           | r \<Rightarrow> r)
      | r \<Rightarrow> r)"
| "eval n args (StrictEq a b) s =
     (case eval n args a s of
        Some (Normal x s1) \<Rightarrow>
          (case eval n args b s1 of
             Some (Normal y s2) \<Rightarrow> Some (Normal (Bool (strict_eq x y)) s2)
           | r \<Rightarrow> r)
      | r \<Rightarrow> r)"
| "eval n args (Cond c a b) s =
     (case eval n args c s of
        Some (Normal x s1) \<Rightarrow> if truthy x then eval n args a s1 else eval n args b s1
      | r \<Rightarrow> r)"
| "eval n args (Call obj m a) s =
     (case eval n args obj s of
        Some (Normal (Ref r) s1) \<Rightarrow>
          (case get_any n r (Name m) r s1 of
             None \<Rightarrow> None
           | Some (f, s2) \<Rightarrow>
               (case eval n args a s2 of
                  Some (Normal x s3) \<Rightarrow> call_method n f r x s3
                | r \<Rightarrow> r))
      | Some (Normal _ s1) \<Rightarrow> Some (Threw TypeError s1)
      | r \<Rightarrow> r)"

fun eval_list :: "nat \<Rightarrow> val list \<Rightarrow> expr list \<Rightarrow> state \<Rightarrow> (val list) outcome option" where
  "eval_list n args [] s = Some (Normal [] s)"
| "eval_list n args (e # es) s =
     (case eval n args e s of
        None \<Rightarrow> None
      | Some (Threw x s1) \<Rightarrow> Some (Threw x s1)
      | Some (Normal v s1) \<Rightarrow>
          (case eval_list n args es s1 of
             Some (Normal vs s2) \<Rightarrow> Some (Normal (v # vs) s2)
           | r \<Rightarrow> r))"

section \<open>Enumeration and \<open>traverse\<close>\<close>

text \<open>
  The keys that \<open>for (const key in r)\<close> visits: the own string keys, then those of the
  prototype chain that are new. On a proxy of \<open>createReactive\<close> the \<open>ownKeys\<close> trap
  tracks \<open>length\<close> for an array target and \<open>ITERATE_KEY\<close> otherwise.
\<close>

fun enum_keys :: "nat \<Rightarrow> nat \<Rightarrow> state \<Rightarrow> (key list \<times> state) option" where
  "enum_keys 0 r s = None"
| "enum_keys (Suc n) r s =
     (case lookup_obj s r of
        None \<Rightarrow> None
      | Some (PlainObj props proto) \<Rightarrow>
          (let own = filter (\<lambda>k. \<not> is_symbol k) (map fst props) in
           case proto of
             None \<Rightarrow> Some (own, s)
           | Some p \<Rightarrow>
               (case enum_keys n p s of
                  None \<Rightarrow> None
                | Some (ks, s1) \<Rightarrow> Some (own @ filter (\<lambda>k. k \<notin> set own) ks, s1)))
      | Some (ArrayObj elems props) \<Rightarrow>
          Some (map Index [0 ..< length elems] @ filter (\<lambda>k. \<not> is_symbol k) (map fst props), s)
      | Some (ProxyObj target Basic) \<Rightarrow> enum_keys n target s
      | Some (ProxyObj target (Reactive isShallow isReadonly)) \<Rightarrow>
          (case track n target (if isArray s target then Name ''length'' else ITERATE_KEY) s of
             None \<Rightarrow> None
           | Some s1 \<Rightarrow> enum_keys n target s1))"

fun traverse :: "nat \<Rightarrow> val \<Rightarrow> nat list \<Rightarrow> state \<Rightarrow> (val \<times> nat list \<times> state) option"
and traverse_keys :: "nat \<Rightarrow> nat \<Rightarrow> key list \<Rightarrow> nat list \<Rightarrow> state \<Rightarrow> (nat list \<times> state) option"
where
  "traverse 0 source seen s = None"
| "traverse (Suc n) source seen s =
     (case source of
        Ref r \<Rightarrow>
          if r \<in> set seen then Some (Undefined, seen, s)
          else
            (case enum_keys n r s of
               None \<Rightarrow> None
             | Some (ks, s1) \<Rightarrow>
                 (case traverse_keys n r ks (seen @ [r]) s1 of
                    None \<Rightarrow> None
                  | Some (seen1, s2) \<Rightarrow> Some (source, seen1, s2)))
      | _ \<Rightarrow> Some (Undefined, seen, s))"
| "traverse_keys 0 r ks seen s = None"
| "traverse_keys (Suc n) r [] seen s = Some (seen, s)"
| "traverse_keys (Suc n) r (k # ks) seen s =
     (case get_any n r k r s of
        None \<Rightarrow> None
      | Some (v, s1) \<Rightarrow>
          (case traverse n v seen s1 of
             None \<Rightarrow> None
           | Some (_, seen1, s2) \<Rightarrow> traverse_keys n r ks seen1 s2))"

section \<open>Proxies: writing\<close>

text \<open>
  \<open>ArraySetLength\<close>: the new length is \<open>ToNumber\<close> of the value and has to be an
  integer from 0 to \<open>2^32 - 1\<close>. As \<open>to_number\<close> does not convert strings, a string
  is refused here, where the host accepts one that spells a length.
\<close>

definition array_set_length :: "val list \<Rightarrow> val \<Rightarrow> val list option" where
  "array_set_length elems v =
     (case to_number v of
        Some n \<Rightarrow>
          if 0 \<le> n \<and> n < 2 ^ 32
          then Some (take (nat n) elems @ replicate (nat n - length elems) Undefined)
          else None
      | None \<Rightarrow> None)"

text \<open>
  \<open>receiver.[[DefineOwnProperty]]\<close> with a value: the handlers do not trap it, so it
  arrives at the object behind the proxies. An array grows when an index at or beyond its
  length is written, and is cut or padded when \<open>length\<close> is written; a value that is not
  a length raises \<open>RangeError\<close>. The elements that padding adds are \<open>undefined\<close>
  values here, where the host leaves holes.
\<close>

definition define_own :: "nat \<Rightarrow> key \<Rightarrow> val \<Rightarrow> state \<Rightarrow> bool outcome" where
  "define_own receiver key v s =
     (case raw_of s receiver of
        None \<Rightarrow> Threw TypeError s
      | Some r \<Rightarrow>
          (case heap s ! r of
             PlainObj props proto \<Rightarrow>
               Normal True (s\<lparr>heap := (heap s)[r := PlainObj (AList.update key v props) proto]\<rparr>)
           | ArrayObj elems props \<Rightarrow>
               (case key of
                  Index i \<Rightarrow>
                    Normal True (s\<lparr>heap := (heap s)[r := ArrayObj
                      (if i < length elems then elems[i := v]
                       else elems @ replicate (i - length elems) Undefined @ [v]) props]\<rparr>)
                | _ \<Rightarrow>
                    if key = Name ''length''
                    then (case array_set_length elems v of
                            None \<Rightarrow> Threw RangeError s
                          | Some elems' \<Rightarrow>
                              Normal True (s\<lparr>heap := (heap s)[r := ArrayObj elems' props]\<rparr>))
                    else Normal True
                           (s\<lparr>heap := (heap s)[r := ArrayObj elems (AList.update key v props)]\<rparr>))
           | ProxyObj _ _ \<Rightarrow> Threw TypeError s))"

section \<open>\<open>trigger\<close>: assembling the effects to run\<close>

text \<open>
  \<open>effectsToRun.add(fn)\<close> for every \<open>fn\<close> of a set that is not the active effect; the
  new set keeps insertion order.
\<close>

definition add_effects :: "nat option \<Rightarrow> nat list \<Rightarrow> nat list \<Rightarrow> nat list" where
  "add_effects active es acc =
     fold (\<lambda>f acc. if Some f \<noteq> active then (if f \<in> set acc then acc else acc @ [f]) else acc) es acc"

definition get_set :: "(key \<times> nat list) list \<Rightarrow> key \<Rightarrow> nat list" where
  "get_set depsMap key = (case map_of depsMap key of None \<Rightarrow> [] | Some d \<Rightarrow> d)"

text \<open>
  \<open>key >= newVal\<close>: an index is compared as a number, another string gives \<open>NaN\<close> and
  so \<open>false\<close>, a symbol cannot be converted (\<open>None\<close>, a \<open>TypeError\<close>).
\<close>

fun key_ge :: "key \<Rightarrow> val \<Rightarrow> bool option" where
  "key_ge (Index i) v = Some (case to_number v of Some n \<Rightarrow> n \<le> int i | None \<Rightarrow> False)"
| "key_ge (Name m) v = Some False"
| "key_ge (Sym n) v = None"

fun length_effects ::
  "nat option \<Rightarrow> val \<Rightarrow> (key \<times> nat list) list \<Rightarrow> nat list \<Rightarrow> val + nat list"
where
  "length_effects active newVal [] acc = Inr acc"
| "length_effects active newVal ((k, es) # rest) acc =
     (case key_ge k newVal of
        None \<Rightarrow> Inl TypeError
      | Some b \<Rightarrow> length_effects active newVal rest (if b then add_effects active es acc else acc))"

definition effectsToRun ::
  "state \<Rightarrow> (key \<times> nat list) list \<Rightarrow> nat \<Rightarrow> key \<Rightarrow> TriggerType \<Rightarrow> val \<Rightarrow> val + nat list"
where
  "effectsToRun s depsMap target key type newVal =
     (let r1 = add_effects (activeEffect s) (get_set depsMap key) [];
          isArrayTarget = isArray s target;
          r2 = (if isArrayTarget \<and> type = ADD
                then add_effects (activeEffect s) (get_set depsMap (Name ''length'')) r1 else r1);
          r3 = (if isArrayTarget \<and> key = Name ''length''
                then length_effects (activeEffect s) newVal depsMap r2 else Inr r2)
      in case r3 of
           Inl err \<Rightarrow> Inl err
         | Inr r \<Rightarrow>
             Inr (if type = ADD \<or> type = DELETE
                  then add_effects (activeEffect s) (get_set depsMap ITERATE_KEY) r else r))"

section \<open>Running effects\<close>

definition pop_stack :: "state \<Rightarrow> state" where
  "pop_stack s =
     (let st = butlast (effectStack s)
      in s\<lparr>effectStack := st, activeEffect := (if st = [] then None else Some (last st))\<rparr>)"

definition push_effect :: "nat \<Rightarrow> state \<Rightarrow> state" where
  "push_effect e s = s\<lparr>activeEffect := Some e, effectStack := effectStack s @ [e]\<rparr>"

definition new_effect :: "func \<Rightarrow> val list \<times> nat option \<Rightarrow> sched option \<Rightarrow> bool \<Rightarrow> state \<Rightarrow> state" where
  "new_effect f en sch lz s =
     s\<lparr>effectFns := effectFns s @ [\<lparr>fn = f, env = en, deps = [], scheduler = sch, lazy = lz\<rparr>]\<rparr>"

definition set_dirty :: "nat \<Rightarrow> bool \<Rightarrow> state \<Rightarrow> state" where
  "set_dirty c b s = s\<lparr>computeds := (computeds s)[c := (computeds s ! c)\<lparr>dirty := b\<rparr>]\<rparr>"

definition set_cacheValue :: "nat \<Rightarrow> val \<Rightarrow> state \<Rightarrow> state" where
  "set_cacheValue c v s = s\<lparr>computeds := (computeds s)[c := (computeds s ! c)\<lparr>cacheValue := v\<rparr>]\<rparr>"

definition set_newValue :: "nat \<Rightarrow> val \<Rightarrow> state \<Rightarrow> state" where
  "set_newValue w v s = s\<lparr>watchers := (watchers s)[w := (watchers s ! w)\<lparr>newValue := v\<rparr>]\<rparr>"

definition set_oldValue :: "nat \<Rightarrow> val \<Rightarrow> state \<Rightarrow> state" where
  "set_oldValue w v s = s\<lparr>watchers := (watchers s)[w := (watchers s ! w)\<lparr>oldValue := v\<rparr>]\<rparr>"

definition onInvalidate :: "nat \<Rightarrow> cmd list \<times> val list \<times> nat option \<Rightarrow> state \<Rightarrow> state" where
  "onInvalidate w f s = s\<lparr>watchers := (watchers s)[w := (watchers s ! w)\<lparr>w_cleanup := Some f\<rparr>]\<rparr>"

definition console_log :: "val list \<Rightarrow> state \<Rightarrow> state" where
  "console_log vs s = s\<lparr>console := console s @ [vs]\<rparr>"

subsection \<open>Sequencing\<close>

text \<open>
  A step either does not return (\<open>None\<close>), throws, or returns a value; \<open>seq\<close> runs the
  rest only after a normal return, so an exception leaves through every caller.
\<close>

definition seq :: "'a outcome option \<Rightarrow> ('a \<Rightarrow> state \<Rightarrow> 'b outcome option) \<Rightarrow> 'b outcome option" where
  "seq m f = (case m of None \<Rightarrow> None | Some (Threw x s) \<Rightarrow> Some (Threw x s) | Some (Normal v s) \<Rightarrow> f v s)"

definition ret :: "'a \<Rightarrow> state \<Rightarrow> 'a outcome option" where
  "ret v s = Some (Normal v s)"

definition lift :: "('a \<times> state) option \<Rightarrow> 'a outcome option" where
  "lift m = map_option (\<lambda>(v, s). Normal v s) m"

subsection \<open>The bodies of the functions that run user code\<close>

text \<open>
  The functions that can run user code call each other: a write runs \<open>trigger\<close>, which
  runs effect functions, which run user statements, which write. Each body below is the
  source function with the functions it calls as its first arguments; the definitions
  after them close the recursion over a bound \<open>n\<close> on the depth of the calls, and the
  lemmas \<open>set_any_Suc\<close>, \<open>trigger_Suc\<close>, ... give the source's equations back.
\<close>

type_synonym closure_env = "val list \<times> nat option"

text \<open>
  The operation type of the \<open>set\<close> trap: \<open>Number(key) < target.length\<close> for an array
  target, \<open>hasOwnProperty\<close> otherwise. \<open>Number\<close> of a \<open>Name\<close> key is \<open>NaN\<close> (such a
  key does not spell a number, the empty string included), so it gives \<open>ADD\<close>.
\<close>

definition trigger_type :: "nat \<Rightarrow> nat \<Rightarrow> key \<Rightarrow> state \<Rightarrow> TriggerType outcome option" where
  "trigger_type n target key s =
     (if isArray s target
      then (if is_symbol key then Some (Threw TypeError s)
            else seq (lift (get_any n target (Name ''length'') target s))
                   (\<lambda>len s1. ret (case (key, to_number len) of
                                     (Index i, Some l) \<Rightarrow> if int i < l then SET else ADD
                                   | _ \<Rightarrow> ADD) s1))
      else ret (if hasOwnProperty s target key then SET else ADD) s)"

text \<open>
  \<open>set_any_body\<close> is \<open>r.[[Set]](key, newVal, receiver)\<close>. An ordinary object that has
  the key, or has no prototype, defines the property on the receiver; otherwise it asks its
  prototype. The handler of the early listings writes \<open>target[key]\<close> and calls
  \<open>trigger(target, key)\<close>, which is \<open>trigger\<close> with the type \<open>SET\<close> here (it has no
  type there and assembles the subscribers of the key only). The trap of
  \<open>createReactive\<close> follows.
\<close>

definition set_any_body ::
  "nat \<Rightarrow> (nat \<Rightarrow> key \<Rightarrow> val \<Rightarrow> nat \<Rightarrow> state \<Rightarrow> bool outcome option)
     \<Rightarrow> (nat \<Rightarrow> key \<Rightarrow> TriggerType \<Rightarrow> val \<Rightarrow> state \<Rightarrow> unit outcome option)
     \<Rightarrow> nat \<Rightarrow> key \<Rightarrow> val \<Rightarrow> nat \<Rightarrow> state \<Rightarrow> bool outcome option"
where
  "set_any_body n set_any' trigger' r key newVal receiver s =
     (case lookup_obj s r of
        None \<Rightarrow> None
      | Some (PlainObj props proto) \<Rightarrow>
          (if map_of props key \<noteq> None then Some (define_own receiver key newVal s)
           else (case proto of
                   None \<Rightarrow> Some (define_own receiver key newVal s)
                 | Some p \<Rightarrow> set_any' p key newVal receiver s))
      | Some (ArrayObj elems props) \<Rightarrow> Some (define_own receiver key newVal s)
      | Some (ProxyObj target Basic) \<Rightarrow>
          seq (set_any' target key newVal target s) (\<lambda>_ s1.
          seq (trigger' target key SET newVal s1) (\<lambda>_ s2.
          ret True s2))
      | Some (ProxyObj target (Reactive isShallow isReadonly)) \<Rightarrow>
          if isReadonly
          then ret True (console_log [Str ''set failed: readonly''] s)
          else
            seq (lift (get_any n target key target s)) (\<lambda>oldValue0 s1.
            seq (trigger_type n target key s1) (\<lambda>type s2.
            seq (set_any' target key newVal receiver s2) (\<lambda>res s3.
            seq (lift (get_any n receiver RAW_KEY receiver s3)) (\<lambda>raw s4.
              if Ref target = raw
              then (if \<not> strict_eq oldValue0 newVal
                        \<and> (strict_eq oldValue0 oldValue0 \<or> strict_eq newVal newVal)
                    then seq (trigger' target key type newVal s4) (\<lambda>_ s5. ret res s5)
                    else ret res s4)
              else ret res s4)))))"

definition trigger_body ::
  "(nat list \<Rightarrow> state \<Rightarrow> unit outcome option)
     \<Rightarrow> nat \<Rightarrow> key \<Rightarrow> TriggerType \<Rightarrow> val \<Rightarrow> state \<Rightarrow> unit outcome option"
where
  "trigger_body run_effects' target key type newVal s =
     (case map_of (effectsBuckets s) target of
        None \<Rightarrow> ret () (emit (Triggered target key type newVal) s)
      | Some depsMap \<Rightarrow>
          (case effectsToRun s depsMap target key type newVal of
             Inl err \<Rightarrow> Some (Threw err (emit (Triggered target key type newVal) s))
           | Inr fs \<Rightarrow> run_effects' fs (emit (Triggered target key type newVal) s)))"

text \<open>
  The last loop of \<open>trigger\<close>: an effect with a scheduler is handed to it (the scheduler
  of a computed object sets \<open>dirty\<close>, the scheduler of a watcher is its job), another
  effect is called.
\<close>

definition deliver ::
  "(nat \<Rightarrow> state \<Rightarrow> val outcome option) \<Rightarrow> (nat \<Rightarrow> state \<Rightarrow> unit outcome option)
     \<Rightarrow> nat \<Rightarrow> state \<Rightarrow> unit outcome option"
where
  "deliver effectFn' job' f s =
     (case scheduler (effectFns s ! f) of
        Some (ComputedScheduler c) \<Rightarrow> ret () (set_dirty c True s)
      | Some (WatchJob w) \<Rightarrow> job' w s
      | None \<Rightarrow> seq (effectFn' f s) (\<lambda>_ s1. ret () s1))"

definition run_effects_body ::
  "(nat list \<Rightarrow> state \<Rightarrow> unit outcome option)
     \<Rightarrow> (nat \<Rightarrow> state \<Rightarrow> val outcome option) \<Rightarrow> (nat \<Rightarrow> state \<Rightarrow> unit outcome option)
     \<Rightarrow> nat list \<Rightarrow> state \<Rightarrow> unit outcome option"
where
  "run_effects_body run_effects' effectFn' job' fs s =
     (case fs of
        [] \<Rightarrow> ret () s
      | f # fs' \<Rightarrow> seq (deliver effectFn' job' f s) (\<lambda>_ s1. run_effects' fs' s1))"

text \<open>
  A call of the effect function \<open>e\<close>: \<open>cleanup\<close>, make it the active effect, push it,
  call the wrapped function, pop, point the active effect at the new top of the stack,
  return the result. Nothing catches an exception of the wrapped function.
\<close>

definition effectFn_body ::
  "(func \<Rightarrow> closure_env \<Rightarrow> state \<Rightarrow> val outcome option) \<Rightarrow> nat \<Rightarrow> state \<Rightarrow> val outcome option"
where
  "effectFn_body call_fn' e s =
     (if e < length (effectFns s)
      then seq (call_fn' (fn (effectFns s ! e)) (env (effectFns s ! e))
                  (push_effect e (cleanup e (emit (Ran e) s))))
             (\<lambda>res s1. ret res (pop_stack s1))
      else None)"

definition call_fn_body ::
  "nat \<Rightarrow> (closure_env \<Rightarrow> cmd list \<Rightarrow> state \<Rightarrow> unit outcome option)
     \<Rightarrow> func \<Rightarrow> closure_env \<Rightarrow> state \<Rightarrow> val outcome option"
where
  "call_fn_body n exec' f en s =
     (case f of
        Fn body r \<Rightarrow> seq (exec' en body s) (\<lambda>_ s1. eval n (fst en) r s1)
      | FnThen r body \<Rightarrow>
          seq (eval n (fst en) r s) (\<lambda>v s1. seq (exec' en body s1) (\<lambda>_ s2. ret v s2))
      | TraverseFn source \<Rightarrow> map_option (\<lambda>(v, seen, s1). Normal v s1) (traverse n source [] s))"

definition exec_body ::
  "(closure_env \<Rightarrow> cmd list \<Rightarrow> state \<Rightarrow> unit outcome option)
     \<Rightarrow> (closure_env \<Rightarrow> cmd \<Rightarrow> state \<Rightarrow> unit outcome option)
     \<Rightarrow> closure_env \<Rightarrow> cmd list \<Rightarrow> state \<Rightarrow> unit outcome option"
where
  "exec_body exec' exec1' en cs s =
     (case cs of
        [] \<Rightarrow> ret () s
      | c # cs' \<Rightarrow> seq (exec1' en c s) (\<lambda>_ s1. exec' en cs' s1))"

text \<open>
  One statement. An assignment goes through \<open>[[Set]]\<close> of the object with the object as
  receiver, and throws on a value that is not an object (the listings are modules, so
  strict code). \<open>Effect body\<close> is \<open>effect(() => { body })\<close> with the default options.
  \<open>Try body handler\<close> is \<open>try { body } catch { handler }\<close>: the handler runs in the
  state the exception left.
\<close>

definition exec1_body ::
  "nat \<Rightarrow> (closure_env \<Rightarrow> cmd list \<Rightarrow> state \<Rightarrow> unit outcome option)
     \<Rightarrow> (nat \<Rightarrow> key \<Rightarrow> val \<Rightarrow> nat \<Rightarrow> state \<Rightarrow> bool outcome option)
     \<Rightarrow> (func \<Rightarrow> closure_env \<Rightarrow> sched option \<Rightarrow> bool \<Rightarrow> state \<Rightarrow> nat outcome option)
     \<Rightarrow> (nat \<Rightarrow> state \<Rightarrow> val outcome option)
     \<Rightarrow> closure_env \<Rightarrow> cmd \<Rightarrow> state \<Rightarrow> unit outcome option"
where
  "exec1_body n exec' set_any' effect' value_get' en c s =
     (case c of
        Do e \<Rightarrow> seq (eval n (fst en) e s) (\<lambda>_ s1. ret () s1)
      | Log es \<Rightarrow> seq (eval_list n (fst en) es s) (\<lambda>vs s1. ret () (console_log vs s1))
      | Assign obj key e \<Rightarrow>
          seq (eval n (fst en) obj s) (\<lambda>ov s1.
          seq (eval n (fst en) e s1) (\<lambda>v s2.
            (case ov of
               Ref r \<Rightarrow> seq (set_any' r key v r s2) (\<lambda>_ s3. ret () s3)
             | _ \<Rightarrow> Some (Threw TypeError s2))))
      | If c a b \<Rightarrow>
          seq (eval n (fst en) c s) (\<lambda>v s1. if truthy v then exec' en a s1 else exec' en b s1)
      | Effect body \<Rightarrow> seq (effect' (Fn body (Lit Undefined)) en None False s) (\<lambda>_ s1. ret () s1)
      | Throw e \<Rightarrow> seq (eval n (fst en) e s) (\<lambda>v s1. Some (Threw v s1))
      | Try body handler \<Rightarrow>
          (case exec' en body s of
             None \<Rightarrow> None
           | Some (Normal u s1) \<Rightarrow> Some (Normal u s1)
           | Some (Threw x s1) \<Rightarrow> exec' en handler (emit Caught s1))
      | OnInvalidate body \<Rightarrow>
          (case snd en of
             None \<Rightarrow> Some (Threw TypeError s)
           | Some w \<Rightarrow> ret () (onInvalidate w (body, en) s))
      | ReadValue c \<Rightarrow> seq (value_get' c s) (\<lambda>_ s1. ret () s1))"

text \<open>
  \<open>effect(fn, options)\<close>: build the effect function with empty \<open>deps\<close>, call it unless
  \<open>options.lazy\<close>, return it.
\<close>

definition effect_body ::
  "(nat \<Rightarrow> state \<Rightarrow> val outcome option)
     \<Rightarrow> func \<Rightarrow> closure_env \<Rightarrow> sched option \<Rightarrow> bool \<Rightarrow> state \<Rightarrow> nat outcome option"
where
  "effect_body effectFn' f en sch lz s =
     (if \<not> lz
      then seq (effectFn' (length (effectFns s)) (new_effect f en sch lz s))
             (\<lambda>_ s1. ret (length (effectFns s)) s1)
      else ret (length (effectFns s)) (new_effect f en sch lz s))"

text \<open>The getter of \<open>value\<close> on the object that \<open>computed\<close> returns.\<close>

definition value_get_body ::
  "(nat \<Rightarrow> state \<Rightarrow> val outcome option) \<Rightarrow> nat \<Rightarrow> state \<Rightarrow> val outcome option"
where
  "value_get_body effectFn' c s =
     (if c < length (computeds s)
      then (if dirty (computeds s ! c)
            then seq (effectFn' (c_effectFn (computeds s ! c)) s)
                   (\<lambda>v s1. ret v (console_log [Str ''get new value'']
                                    (set_dirty c False (set_cacheValue c v (emit (Recomputed c) s1)))))
            else ret (cacheValue (computeds s ! c)) (console_log [Str ''get cache value''] s))
      else None)"

text \<open>
  The job of a watcher: call the effect function for the new value, call the registered
  invalidation callback if there is one, call \<open>cb(newValue, oldValue, onInvalidate)\<close>,
  store the new value as the old one.
\<close>

definition job_body ::
  "(nat \<Rightarrow> state \<Rightarrow> val outcome option)
     \<Rightarrow> (closure_env \<Rightarrow> cmd list \<Rightarrow> state \<Rightarrow> unit outcome option)
     \<Rightarrow> nat \<Rightarrow> state \<Rightarrow> unit outcome option"
where
  "job_body effectFn' exec' w s =
     (if w < length (watchers s)
      then
        seq (effectFn' (w_effectFn (watchers s ! w)) (emit (Job w) s)) (\<lambda>v s1.
        seq (case w_cleanup (watchers s1 ! w) of
               None \<Rightarrow> ret () (set_newValue w v s1)
             | Some f \<Rightarrow> exec' (snd f) (fst f) (set_newValue w v s1)) (\<lambda>_ s2.
        seq (exec' ([newValue (watchers s2 ! w), oldValue (watchers s2 ! w)], Some w)
               (cb (watchers s2 ! w))
               (emit (Called w (newValue (watchers s2 ! w)) (oldValue (watchers s2 ! w))) s2))
          (\<lambda>_ s3. ret () (set_oldValue w (newValue (watchers s3 ! w)) s3))))
      else None)"

subsection \<open>Closing the recursion\<close>

record fns =
  set_any_f :: "nat \<Rightarrow> key \<Rightarrow> val \<Rightarrow> nat \<Rightarrow> state \<Rightarrow> bool outcome option"
  trigger_f :: "nat \<Rightarrow> key \<Rightarrow> TriggerType \<Rightarrow> val \<Rightarrow> state \<Rightarrow> unit outcome option"
  run_effects_f :: "nat list \<Rightarrow> state \<Rightarrow> unit outcome option"
  effectFn_f :: "nat \<Rightarrow> state \<Rightarrow> val outcome option"
  call_fn_f :: "func \<Rightarrow> closure_env \<Rightarrow> state \<Rightarrow> val outcome option"
  exec_f :: "closure_env \<Rightarrow> cmd list \<Rightarrow> state \<Rightarrow> unit outcome option"
  exec1_f :: "closure_env \<Rightarrow> cmd \<Rightarrow> state \<Rightarrow> unit outcome option"
  effect_f :: "func \<Rightarrow> closure_env \<Rightarrow> sched option \<Rightarrow> bool \<Rightarrow> state \<Rightarrow> nat outcome option"
  value_get_f :: "nat \<Rightarrow> state \<Rightarrow> val outcome option"
  job_f :: "nat \<Rightarrow> state \<Rightarrow> unit outcome option"

primrec fns_at :: "nat \<Rightarrow> fns" where
  "fns_at 0 =
     \<lparr>set_any_f = (\<lambda>r key newVal receiver s. None),
      trigger_f = (\<lambda>target key type newVal s. None),
      run_effects_f = (\<lambda>fs s. None),
      effectFn_f = (\<lambda>e s. None),
      call_fn_f = (\<lambda>f en s. None),
      exec_f = (\<lambda>en cs s. None),
      exec1_f = (\<lambda>en c s. None),
      effect_f = (\<lambda>f en sch lz s. None),
      value_get_f = (\<lambda>c s. None),
      job_f = (\<lambda>w s. None)\<rparr>"
| "fns_at (Suc n) =
     \<lparr>set_any_f = set_any_body n (set_any_f (fns_at n)) (trigger_f (fns_at n)),
      trigger_f = trigger_body (run_effects_f (fns_at n)),
      run_effects_f = run_effects_body (run_effects_f (fns_at n)) (effectFn_f (fns_at n)) (job_f (fns_at n)),
      effectFn_f = effectFn_body (call_fn_f (fns_at n)),
      call_fn_f = call_fn_body n (exec_f (fns_at n)),
      exec_f = exec_body (exec_f (fns_at n)) (exec1_f (fns_at n)),
      exec1_f = exec1_body n (exec_f (fns_at n)) (set_any_f (fns_at n)) (effect_f (fns_at n))
                  (value_get_f (fns_at n)),
      effect_f = effect_body (effectFn_f (fns_at n)),
      value_get_f = value_get_body (effectFn_f (fns_at n)),
      job_f = job_body (effectFn_f (fns_at n)) (exec_f (fns_at n))\<rparr>"

definition set_any :: "nat \<Rightarrow> nat \<Rightarrow> key \<Rightarrow> val \<Rightarrow> nat \<Rightarrow> state \<Rightarrow> bool outcome option" where
  "set_any n = set_any_f (fns_at n)"

definition trigger :: "nat \<Rightarrow> nat \<Rightarrow> key \<Rightarrow> TriggerType \<Rightarrow> val \<Rightarrow> state \<Rightarrow> unit outcome option" where
  "trigger n = trigger_f (fns_at n)"

definition run_effects :: "nat \<Rightarrow> nat list \<Rightarrow> state \<Rightarrow> unit outcome option" where
  "run_effects n = run_effects_f (fns_at n)"

definition effectFn :: "nat \<Rightarrow> nat \<Rightarrow> state \<Rightarrow> val outcome option" where
  "effectFn n = effectFn_f (fns_at n)"

definition call_fn :: "nat \<Rightarrow> func \<Rightarrow> closure_env \<Rightarrow> state \<Rightarrow> val outcome option" where
  "call_fn n = call_fn_f (fns_at n)"

definition exec :: "nat \<Rightarrow> closure_env \<Rightarrow> cmd list \<Rightarrow> state \<Rightarrow> unit outcome option" where
  "exec n = exec_f (fns_at n)"

definition exec1 :: "nat \<Rightarrow> closure_env \<Rightarrow> cmd \<Rightarrow> state \<Rightarrow> unit outcome option" where
  "exec1 n = exec1_f (fns_at n)"

definition effect ::
  "nat \<Rightarrow> func \<Rightarrow> closure_env \<Rightarrow> sched option \<Rightarrow> bool \<Rightarrow> state \<Rightarrow> nat outcome option" where
  "effect n = effect_f (fns_at n)"

definition value_get :: "nat \<Rightarrow> nat \<Rightarrow> state \<Rightarrow> val outcome option" where
  "value_get n = value_get_f (fns_at n)"

definition job :: "nat \<Rightarrow> nat \<Rightarrow> state \<Rightarrow> unit outcome option" where
  "job n = job_f (fns_at n)"

section \<open>\<open>computed\<close> and \<open>watch\<close>\<close>

text \<open>
  \<open>computed(getter)\<close>: a lazy effect over the getter whose scheduler sets \<open>dirty\<close>, and
  the cell of the closure's variables, \<open>dirty\<close> at first.
\<close>

definition computed :: "func \<Rightarrow> state \<Rightarrow> nat \<times> state" where
  "computed getter s =
     (length (computeds s),
      (new_effect getter ([], None) (Some (ComputedScheduler (length (computeds s)))) True s)
        \<lparr>computeds := computeds s @
           [\<lparr>cacheValue = Undefined, dirty = True, c_effectFn = length (effectFns s)\<rparr>]\<rparr>)"

datatype watch_source = SourceFn func | SourceObj val

text \<open>
  \<open>watch(source, cb, options)\<close>: the getter is the source when it is a function and
  \<open>() => traverse(source)\<close> otherwise; a lazy effect over it has the job as scheduler;
  then the job runs at once when \<open>options.immediate\<close> is set, and otherwise the effect
  function runs and its result is stored as the old value.
\<close>

definition watch :: "nat \<Rightarrow> watch_source \<Rightarrow> cmd list \<Rightarrow> bool \<Rightarrow> state \<Rightarrow> unit outcome option" where
  "watch n source callback immediate s =
     (let w = length (watchers s);
          e = length (effectFns s);
          getter = (case source of SourceFn f \<Rightarrow> f | SourceObj v \<Rightarrow> TraverseFn v);
          s1 = (new_effect getter ([], None) (Some (WatchJob w)) True s)
                 \<lparr>watchers := watchers s @
                    [\<lparr>cb = callback, oldValue = Undefined, newValue = Undefined,
                      w_cleanup = None, w_effectFn = e\<rparr>]\<rparr>
      in if immediate then job n w s1
         else seq (effectFn n e s1) (\<lambda>v s2. ret () (set_oldValue w v s2)))"

text \<open>
  The state in which \<open>watch\<close> starts the job or the effect function: the lazy effect
  and the variables of the closure exist, nothing has run.
\<close>

definition watch_setup :: "watch_source \<Rightarrow> cmd list \<Rightarrow> state \<Rightarrow> state" where
  "watch_setup source callback s =
     (new_effect (case source of SourceFn f \<Rightarrow> f | SourceObj v \<Rightarrow> TraverseFn v) ([], None)
        (Some (WatchJob (length (watchers s)))) True s)
       \<lparr>watchers := watchers s @
          [\<lparr>cb = callback, oldValue = Undefined, newValue = Undefined,
            w_cleanup = None, w_effectFn = length (effectFns s)\<rparr>]\<rparr>"

section \<open>Observing runs\<close>

fun returned :: "'a outcome option \<Rightarrow> 'a option" where
  "returned (Some (Normal v s)) = Some v"
| "returned _ = None"

fun is_normal :: "'a outcome \<Rightarrow> bool" where
  "is_normal (Normal _ _) = True"
| "is_normal (Threw _ _) = False"

definition final :: "'a outcome option \<Rightarrow> state" where
  "final r = state_of (the r)"



text \<open>The active effect is the top of the stack, and there is none when the stack is empty.\<close>

definition active_is_top :: "state \<Rightarrow> bool" where
  "active_is_top s =
     (activeEffect s = (if effectStack s = [] then None else Some (last (effectStack s))))"

fun is_call :: "nat \<Rightarrow> event \<Rightarrow> bool" where
  "is_call w (Called w' x y) = (w' = w)"
| "is_call w _ = False"

definition calls_of :: "nat \<Rightarrow> event list \<Rightarrow> event list" where
  "calls_of w tr = filter (is_call w) tr"

definition runs_of :: "nat \<Rightarrow> event list \<Rightarrow> nat" where
  "runs_of e tr = length (filter (\<lambda>ev. ev = Ran e) tr)"

section \<open>Programs used as examples\<close>

text \<open>
  \<open>const obj = {}; const a = reactive([obj])\<close> of the array listing: the object is cell 0,
  the array cell 1 and the proxy cell 2.
\<close>

definition includes_heap :: "hobj list" where
  "includes_heap = [PlainObj [] None, ArrayObj [Ref 0] []]"

definition includes_state :: state where
  "includes_state = snd (reactive 1 (init includes_heap))"

text \<open>\<open>readonly({bar: 1})\<close>: the object is cell 0 and the read-only proxy cell 1.\<close>

definition readonly_state :: state where
  "readonly_state = snd (readonly 0 (init [PlainObj [(Name ''bar'', Num 1)] None]))"

text \<open>
  The nested effects of the listing with the effect stack: \<open>fn1\<close> logs, registers
  \<open>fn2\<close>, which logs and reads \<open>bar\<close>, and then reads \<open>foo\<close>. The data object is
  cell 0 and its proxy cell 1.
\<close>

definition nested_heap :: "hobj list" where
  "nested_heap =
     [PlainObj [(Name ''foo'', Bool True), (Name ''bar'', Bool True), (Name ''count'', Num 1)] None,
      ProxyObj 0 Basic]"



text \<open>An effect function that throws, registered and not yet called.\<close>

definition throwing_state :: state where
  "throwing_state = new_effect (Fn [Throw (Lit (Str ''boom''))] (Lit Undefined)) ([], None) None False (init [])"

text \<open>The value of an exception that left the call.\<close>

definition thrown :: "'a outcome option \<Rightarrow> val option" where
  "thrown r = (case r of Some (Threw x s) \<Rightarrow> Some x | _ \<Rightarrow> None)"

text \<open>
  Two effects that write what the other reads. Effect 0 writes \<open>a\<close> when \<open>b\<close> is 1;
  effect 1 reads \<open>a\<close> and, while it is 0, reads \<open>y\<close>, writes \<open>b\<close> and reads \<open>z\<close>.
  Registering effect 1 runs it, its write runs effect 0, whose write runs effect 1 again
  inside its own run. Then a function that reads \<open>cond ? a : b\<close>, and the assignment
  \<open>p[key] = v\<close> of the top level.
\<close>

definition reentrant_heap :: "hobj list" where
  "reentrant_heap =
     [PlainObj [(Name ''a'', Num 0), (Name ''b'', Num 0), (Name ''y'', Num 0), (Name ''z'', Num 0)] None,
      ProxyObj 0 Basic]"

definition reentrant_f :: "cmd list" where
  "reentrant_f =
     [If (StrictEq (Get (Lit (Ref 1)) (Name ''b'')) (Lit (Num 1)))
        [Assign (Lit (Ref 1)) (Name ''a'') (Lit (Num 1))] []]"

definition reentrant_e :: "cmd list" where
  "reentrant_e =
     [If (StrictEq (Get (Lit (Ref 1)) (Name ''a'')) (Lit (Num 0)))
        [Do (Get (Lit (Ref 1)) (Name ''y'')),
         Assign (Lit (Ref 1)) (Name ''b'') (Lit (Num 1)),
         Do (Get (Lit (Ref 1)) (Name ''z''))] []]"

definition reentrant_state :: state where
  "reentrant_state =
     final (effect 30 (Fn reentrant_f (Lit Undefined)) ([], None) None False (init reentrant_heap))"

definition reentrant_run :: "nat outcome option" where
  "reentrant_run = effect 30 (Fn reentrant_e (Lit Undefined)) ([], None) None False reentrant_state"





definition assign :: "nat \<Rightarrow> key \<Rightarrow> val \<Rightarrow> state \<Rightarrow> unit outcome option" where
  "assign p key v s = exec 20 ([], None) [Assign (Lit (Ref p)) key (Lit v)] s"

text \<open>
  \<open>const arr = reactive([1, 2, 3]); effect(() => arr[2])\<close>: the array is cell 0 and its
  proxy cell 1.
\<close>

definition array_state :: state where
  "array_state =
     final (effect 20 (Fn [Do (Get (Lit (Ref 1)) (Index 2))] (Lit Undefined)) ([], None) None False
              (snd (reactive 0 (init [ArrayObj [Num 1, Num 2, Num 3] []]))))"

text \<open>\<open>effect(() => { proxyData.count++ })\<close> on the data object of the nested effects.\<close>

definition counter_state :: state where
  "counter_state =
     final (effect 20 (Fn [Assign (Lit (Ref 1)) (Name ''count'')
                             (Plus (Get (Lit (Ref 1)) (Name ''count'')) (Lit (Num 1)))] (Lit Undefined))
              ([], None) None False (init nested_heap))"

text \<open>
  The data object of the computed listing, \<open>{count: 1, foo: 2, bar: 3}\<close>, with its proxy
  in cell 1, and \<open>p.key++\<close> as a statement.
\<close>

definition data_heap :: "hobj list" where
  "data_heap =
     [PlainObj [(Name ''count'', Num 1), (Name ''foo'', Num 2), (Name ''bar'', Num 3)] None,
      ProxyObj 0 Basic]"

definition increment :: "nat \<Rightarrow> key \<Rightarrow> state \<Rightarrow> unit outcome option" where
  "increment p key s =
     exec 20 ([], None) [Assign (Lit (Ref p)) key (Plus (Get (Lit (Ref p)) key) (Lit (Num 1)))] s"





text \<open>
  \<open>Object.setPrototypeOf(obj, proto)\<close>: the proxies have no trap for it, so it reaches
  the raw object.
\<close>

definition setPrototypeOf :: "nat \<Rightarrow> nat \<Rightarrow> state \<Rightarrow> state" where
  "setPrototypeOf obj proto s =
     (case raw_of s obj of
        None \<Rightarrow> s
      | Some r \<Rightarrow>
          (case heap s ! r of
             PlainObj props _ \<Rightarrow> s\<lparr>heap := (heap s)[r := PlainObj props (Some proto)]\<rparr>
           | _ \<Rightarrow> s))"

text \<open>
  The prototype listing: \<open>originChild = {}\<close> is cell 0, \<open>originParent = {bar: 1}\<close>
  cell 1, \<open>proxyChild\<close> cell 2 and \<open>proxyParent\<close> cell 3, with
  \<open>Object.setPrototypeOf(proxyChild, proxyParent)\<close> and
  \<open>effect(() => console.log(proxyChild.bar))\<close>; then \<open>proxyChild.bar++\<close>, and
  \<open>proxyChild.bar = NaN\<close> after it.
\<close>

definition proto_state :: state where
  "proto_state =
     final (effect 20 (Fn [Log [Get (Lit (Ref 2)) (Name ''bar'')]] (Lit Undefined)) ([], None) None False
       (setPrototypeOf 2 3
          (snd (reactive 1 (snd (reactive 0
             (init [PlainObj [] None, PlainObj [(Name ''bar'', Num 1)] None])))))))"

definition proto_written :: state where
  "proto_written = final (increment 2 (Name ''bar'') proto_state)"

definition proto_nan :: state where
  "proto_nan = final (assign 2 (Name ''bar'') NaN proto_written)"

text \<open>
  Watchers on the data object of the computed listing. \<open>log_cb\<close> is the callback of the
  watch listing; \<open>writing_cb\<close> is \<open>(n) => { if (n === 1) proxyData.count = 2 }\<close>,
  a callback that writes the property it watches; \<open>count_getter\<close> is
  \<open>() => proxyData.count\<close>.
\<close>

definition log_cb :: "cmd list" where
  "log_cb = [Log [Lit (Str ''watched data.bar changed''), Arg 0, Arg 1]]"

definition writing_cb :: "cmd list" where
  "writing_cb =
     [If (StrictEq (Arg 0) (Lit (Num 1))) [Assign (Lit (Ref 1)) (Name ''count'') (Lit (Num 2))] []]"

definition count_getter :: func where
  "count_getter = Fn [] (Get (Lit (Ref 1)) (Name ''count''))"

text \<open>
  \<open>watch(() => proxyData.count, writing_cb, {immediate: true})\<close>,
  \<open>watch(proxyData, log_cb, {immediate: true})\<close> of the listing, and
  \<open>watch(() => proxyData.count, log_cb)\<close>.
\<close>

definition watch_twice :: "unit outcome option" where
  "watch_twice = watch 30 (SourceFn count_getter) writing_cb True (init data_heap)"

definition watch_now :: "unit outcome option" where
  "watch_now = watch 30 (SourceObj (Ref 1)) log_cb True (init data_heap)"

definition watch_later :: "unit outcome option" where
  "watch_later = watch 30 (SourceFn count_getter) log_cb False (init data_heap)"

text \<open>
  \<open>effect(() => { try { effect(() => { throw 'boom' }) } catch {}; proxyData.foo })\<close> on
  the data object of the nested effects: the outer effect is effect 0, the inner one
  effect 1.
\<close>

definition catching_fn :: "cmd list" where
  "catching_fn =
     [Try [Effect [Throw (Lit (Str ''boom''))]] [],
      Do (Get (Lit (Ref 1)) (Name ''foo''))]"

definition catching_run :: "nat outcome option" where
  "catching_run = effect 20 (Fn catching_fn (Lit Undefined)) ([], None) None False (init nested_heap)"

text \<open>
  Two effects \<open>() => { if (proxyData.count !== 4) proxyData.count++ }\<close> on the same data
  object, and the write \<open>proxyData.count = 0\<close> from outside; and the function
  \<open>() => { proxyData.count++ }\<close>, registered a second time after
  \<open>counter_state\<close>.
\<close>

definition capped_fn :: "cmd list" where
  "capped_fn =
     [If (StrictEq (Get (Lit (Ref 1)) (Name ''count'')) (Lit (Num 4))) []
        [Assign (Lit (Ref 1)) (Name ''count'')
           (Plus (Get (Lit (Ref 1)) (Name ''count'')) (Lit (Num 1)))]]"

definition capped_state :: state where
  "capped_state =
     final (effect 60 (Fn capped_fn (Lit Undefined)) ([], None) None False
       (final (effect 60 (Fn capped_fn (Lit Undefined)) ([], None) None False (init nested_heap))))"

definition capped_write :: "unit outcome option" where
  "capped_write =
     exec 60 ([], None) [Assign (Lit (Ref 1)) (Name ''count'') (Lit (Num 0))] capped_state"

definition inc_fn :: "cmd list" where
  "inc_fn =
     [Assign (Lit (Ref 1)) (Name ''count'')
        (Plus (Get (Lit (Ref 1)) (Name ''count'')) (Lit (Num 1)))]"

text \<open>
  The states in which two effects with that function take turns: the heap is the data
  object and its proxy, the effects 0 and 1 are the only ones and both are
  \<open>() => { proxyData.count++ }\<close> without a scheduler, and when effect \<open>e\<close> is called
  the other one is subscribed to \<open>count\<close>.
\<close>

definition is_increment :: "EffectFn \<Rightarrow> bool" where
  "is_increment f = (fn f = Fn inc_fn (Lit Undefined) \<and> env f = ([], None) \<and> scheduler f = None)"

definition counter_heap :: "hobj list \<Rightarrow> bool" where
  "counter_heap h =
     (length h = 2 \<and> h ! 1 = ProxyObj 0 Basic
      \<and> (case h ! 0 of PlainObj props proto \<Rightarrow> proto = None | _ \<Rightarrow> False))"

definition takes_turns :: "nat \<Rightarrow> state \<Rightarrow> bool" where
  "takes_turns e s =
     (e < 2 \<and> shouldTrack s \<and> length (effectFns s) = 2 \<and> counter_heap (heap s)
      \<and> is_increment (effectFns s ! 0) \<and> is_increment (effectFns s ! 1)
      \<and> deps (effectFns s ! (1 - e)) = [(0, Name ''count'')]
      \<and> (effectsBuckets s = [(0, [(Name ''count'', [e, 1 - e])])]
            \<and> deps (effectFns s ! e) = [(0, Name ''count'')]
          \<or> effectsBuckets s = [(0, [(Name ''count'', [1 - e])])]
            \<and> deps (effectFns s ! e) = []))"

text \<open>
  \<open>computed(() => { const v = proxyData.foo; effect(() => { proxyData.foo = 10 }); return v })\<close>
  on the data object of the computed listing, and a read of its \<open>value\<close>.
\<close>

definition lost_getter :: func where
  "lost_getter =
     FnThen (Get (Lit (Ref 1)) (Name ''foo''))
       [Effect [Assign (Lit (Ref 1)) (Name ''foo'') (Lit (Num 10))]]"

definition lost_state :: state where
  "lost_state = snd (computed lost_getter (init data_heap))"

definition lost_read :: "val outcome option" where
  "lost_read = value_get 20 0 lost_state"

section \<open>The shape of a run\<close>

text \<open>
  Two relations describe what a run can do to the state, for the proofs of the invariants.
  \<open>reads s s'\<close>: \<open>s'\<close> comes from \<open>s\<close> by subscriptions of the active effect and by
  wrapping results in proxies, which is all that reading does. \<open>runs s b s'\<close>: \<open>s'\<close> comes
  from \<open>s\<close> by the steps of the functions that run user code, returning normally when
  \<open>b\<close> holds and with an exception otherwise; a call of an effect function and a job of
  a watcher are brackets around the steps in between, and a caught exception is followed
  by the steps of the handler.
\<close>

inductive reads :: "state \<Rightarrow> state \<Rightarrow> bool" where
  reads_refl: "reads s s"
| reads_track: "activeEffect s = Some e \<Longrightarrow> shouldTrack s \<Longrightarrow> reads (track_add e target key s) s' \<Longrightarrow> reads s s'"
| reads_wrap: "reads (snd (wrap_result isReadonly res s)) s' \<Longrightarrow> reads s s'"

inductive runs :: "state \<Rightarrow> bool \<Rightarrow> state \<Rightarrow> bool" where
  runs_reads: "reads s s' \<Longrightarrow> runs s b s'"
| runs_seq: "runs s True s1 \<Longrightarrow> runs s1 b s2 \<Longrightarrow> runs s b s2"
| runs_define: "define_own receiver key v s = Normal x s' \<Longrightarrow> runs s True s'"
| runs_log: "runs s True (console_log vs s)"
| runs_triggered: "runs s True (emit (Triggered target key type newVal) s)"
| runs_invalidate: "runs s True (set_dirty c True s)"
| runs_recomputed:
    "runs s True (console_log vs (set_dirty c False (set_cacheValue c v (emit (Recomputed c) s))))"
| runs_catch: "runs s False s1 \<Longrightarrow> runs (emit Caught s1) b s2 \<Longrightarrow> runs s b s2"
| runs_inval: "runs s True (onInvalidate w f s)"
| runs_new: "runs s True (new_effect f en sch lz s)"
| runs_effect:
    "e < length (effectFns s) \<Longrightarrow> runs (push_effect e (cleanup e (emit (Ran e) s))) True s1
     \<Longrightarrow> runs s True (pop_stack s1)"
| runs_effect_throw:
    "e < length (effectFns s) \<Longrightarrow> runs (push_effect e (cleanup e (emit (Ran e) s))) False s1
     \<Longrightarrow> runs s False s1"
| runs_job:
    "w < length (watchers s) \<Longrightarrow> runs (emit (Job w) s) True s1
     \<Longrightarrow> runs (set_newValue w v s1) True s2
     \<Longrightarrow> runs (emit (Called w (newValue (watchers s2 ! w)) (oldValue (watchers s2 ! w))) s2) True s3
     \<Longrightarrow> runs s True (set_oldValue w (newValue (watchers s3 ! w)) s3)"
| runs_job_throw1:
    "w < length (watchers s) \<Longrightarrow> runs (emit (Job w) s) False s1 \<Longrightarrow> runs s False s1"
| runs_job_throw2:
    "w < length (watchers s) \<Longrightarrow> runs (emit (Job w) s) True s1
     \<Longrightarrow> runs (set_newValue w v s1) False s2 \<Longrightarrow> runs s False s2"
| runs_job_throw3:
    "w < length (watchers s) \<Longrightarrow> runs (emit (Job w) s) True s1
     \<Longrightarrow> runs (set_newValue w v s1) True s2
     \<Longrightarrow> runs (emit (Called w (newValue (watchers s2 ! w)) (oldValue (watchers s2 ! w))) s2) False s3
     \<Longrightarrow> runs s False s3"

definition good :: "state \<Rightarrow> 'a outcome option \<Rightarrow> bool" where
  "good s m = (\<forall>r. m = Some r \<longrightarrow> runs s (is_normal r) (state_of r))"

text \<open>
  What a run does to the stack: a normal return in which no exception was caught leaves
  the stack as it was; every run leaves it as it was or longer; and the active effect
  stays the top of the stack.
\<close>

definition stack_ok :: "state \<Rightarrow> bool \<Rightarrow> state \<Rightarrow> bool" where
  "stack_ok s b s' =
     ((\<exists>new. trace s' = trace s @ new
          \<and> (b \<and> Caught \<notin> set new \<longrightarrow> effectStack s' = effectStack s))
      \<and> (\<exists>rest. effectStack s' = effectStack s @ rest)
      \<and> (active_is_top s \<longrightarrow> active_is_top s'))"




text \<open>
  What a run does to a watcher \<open>w\<close>: the history grows, and as long as the job of \<open>w\<close>
  is not started in the run, its callback is not called and its old and new value stay.
\<close>

definition quiet :: "nat \<Rightarrow> state \<Rightarrow> state \<Rightarrow> bool" where
  "quiet w s s' =
     (length (watchers s') = length (watchers s)
      \<and> (\<exists>new. trace s' = trace s @ new
            \<and> (Job w \<notin> set new \<longrightarrow>
                 calls_of w new = []
                 \<and> (w < length (watchers s) \<longrightarrow>
                      oldValue (watchers s' ! w) = oldValue (watchers s ! w)
                      \<and> newValue (watchers s' ! w) = newValue (watchers s ! w)))))"

text \<open>
  A result under one bound against the result under another: \<open>below m m'\<close> says that
  when \<open>m\<close> is a result, \<open>m'\<close> is the same result.
\<close>

definition below :: "'a option \<Rightarrow> 'a option \<Rightarrow> bool" where
  "below m m' = (\<forall>r. m = Some r \<longrightarrow> m' = Some r)"

section \<open>The equations of the functions that run user code\<close>

lemmas run_defs = set_any_def trigger_def run_effects_def effectFn_def call_fn_def exec_def exec1_def effect_def value_get_def job_def

lemma set_any_0 [code]: "set_any 0 r key newVal receiver s = None"
  by (simp add: set_any_def)

lemma set_any_Suc [code]: "set_any (Suc n) r key newVal receiver s = set_any_body n (set_any n) (trigger n) r key newVal receiver s"
  by (simp add: run_defs)

lemma trigger_0 [code]: "trigger 0 target key type newVal s = None"
  by (simp add: trigger_def)

lemma trigger_Suc [code]: "trigger (Suc n) target key type newVal s = trigger_body (run_effects n) target key type newVal s"
  by (simp add: run_defs)

lemma run_effects_0 [code]: "run_effects 0 fs s = None"
  by (simp add: run_effects_def)

lemma run_effects_Suc [code]: "run_effects (Suc n) fs s = run_effects_body (run_effects n) (effectFn n) (job n) fs s"
  by (simp add: run_defs)

lemma effectFn_0 [code]: "effectFn 0 e s = None"
  by (simp add: effectFn_def)

lemma effectFn_Suc [code]: "effectFn (Suc n) e s = effectFn_body (call_fn n) e s"
  by (simp add: run_defs)

lemma call_fn_0 [code]: "call_fn 0 f en s = None"
  by (simp add: call_fn_def)

lemma call_fn_Suc [code]: "call_fn (Suc n) f en s = call_fn_body n (exec n) f en s"
  by (simp add: run_defs)

lemma exec_0 [code]: "exec 0 en cs s = None"
  by (simp add: exec_def)

lemma exec_Suc [code]: "exec (Suc n) en cs s = exec_body (exec n) (exec1 n) en cs s"
  by (simp add: run_defs)

lemma exec1_0 [code]: "exec1 0 en c s = None"
  by (simp add: exec1_def)

lemma exec1_Suc [code]: "exec1 (Suc n) en c s = exec1_body n (exec n) (set_any n) (effect n) (value_get n) en c s"
  by (simp add: run_defs)

lemma effect_0 [code]: "effect 0 f en sch lz s = None"
  by (simp add: effect_def)

lemma effect_Suc [code]: "effect (Suc n) f en sch lz s = effect_body (effectFn n) f en sch lz s"
  by (simp add: run_defs)

lemma value_get_0 [code]: "value_get 0 c s = None"
  by (simp add: value_get_def)

lemma value_get_Suc [code]: "value_get (Suc n) c s = value_get_body (effectFn n) c s"
  by (simp add: run_defs)

lemma job_0 [code]: "job 0 w s = None"
  by (simp add: job_def)

lemma job_Suc [code]: "job (Suc n) w s = job_body (effectFn n) (exec n) w s"
  by (simp add: run_defs)

section \<open>Every run has the shape\<close>


lemma reads_trans: "reads s s1 \<Longrightarrow> reads s1 s2 \<Longrightarrow> reads s s2"
  by (induction rule: reads.induct) (auto intro: reads.intros)

lemma reads_track1: "activeEffect s = Some e \<Longrightarrow> shouldTrack s \<Longrightarrow> reads s (track_add e target key s)"
  by (blast intro: reads.intros)

lemma reads_wrap1: "reads s (snd (wrap_result isReadonly res s))"
  by (blast intro: reads.intros)

lemma reads_wrap2: "wrap_result isReadonly res s = (v, s') \<Longrightarrow> reads s s'"
  using reads_wrap1 [of s isReadonly res] by simp

lemma get_any_track_reads:
  "(\<forall>r key receiver s v s'. get_any n r key receiver s = Some (v, s') \<longrightarrow> reads s s')
   \<and> (\<forall>target key s s'. track n target key s = Some s' \<longrightarrow> reads s s')"
proof (induction n)
  case 0
  show ?case by simp
next
  case (Suc n)
  have g: "\<And>r key receiver s v s'. get_any n r key receiver s = Some (v, s') \<Longrightarrow> reads s s'"
    and t: "\<And>target key s s'. track n target key s = Some s' \<Longrightarrow> reads s s'"
    using Suc by blast+
  have G: "reads s s'" if "get_any (Suc n) r key receiver s = Some (v, s')" for r key receiver s v s'
    using that
    by (auto split: option.splits hobj.splits handler.splits if_splits prod.splits
        intro: reads_refl dest!: g t reads_wrap2 elim: reads_trans)
  have T: "reads s s'" if "track (Suc n) target key s = Some s'" for target key s s'
    using that
    by (auto split: option.splits if_splits intro: reads_track1 dest!: g)
  show ?case using G T by blast
qed


lemma get_any_reads: "get_any n r key receiver s = Some (v, s') \<Longrightarrow> reads s s'"
  using get_any_track_reads by blast

lemma track_reads: "track n target key s = Some s' \<Longrightarrow> reads s s'"
  using get_any_track_reads by blast

lemma search_from_reads: "search_from n eq this x ks s = Some (r, s') \<Longrightarrow> reads s s'"
proof (induction ks arbitrary: s)
  case Nil
  then show ?case by (simp add: reads_refl)
next
  case (Cons k ks)
  then show ?case
    by (auto split: option.splits if_splits dest!: get_any_reads)
       (blast intro: reads_trans)+
qed

lemma originMethod_reads: "originMethod n m this x s = Some (v, s') \<Longrightarrow> reads s s'"
  by (auto simp: originMethod_def split: option.splits if_splits
      dest!: get_any_reads search_from_reads)
     (blast intro: reads_trans)+

lemma instrumented_reads: "instrumented n m this x s = Some r \<Longrightarrow> reads s (state_of r)"
  by (auto simp: instrumented_def split: option.splits if_splits val.splits
      dest!: get_any_reads originMethod_reads)
     (blast intro: reads_trans)+

lemma call_method_reads: "call_method n f this x s = Some r \<Longrightarrow> reads s (state_of r)"
  by (auto simp: call_method_def split: val.splits
      dest!: instrumented_reads originMethod_reads intro: reads_refl)

lemma eval_reads: "eval n args e s = Some r \<Longrightarrow> reads s (state_of r)"
proof (induction e arbitrary: s r)
  case (Lit v)
  then show ?case by (auto intro: reads_refl)
next
  case (Arg i)
  then show ?case by (auto intro: reads_refl)
next
  case (Get e key)
  then show ?case
    by (auto split: option.splits outcome.splits val.splits dest!: get_any_reads)
       (force intro: reads_trans)+
next
  case (Plus a b)
  then show ?case
    by (auto split: option.splits outcome.splits) (force intro: reads_trans)+
next
  case (StrictEq a b)
  then show ?case
    by (auto split: option.splits outcome.splits) (force intro: reads_trans)+
next
  case (Cond c a b)
  then show ?case
    by (auto split: option.splits outcome.splits if_splits) (force intro: reads_trans)+
next
  case (Call obj m a)
  then show ?case
    by (auto split: option.splits outcome.splits val.splits
        dest!: get_any_reads call_method_reads)
       (force intro: reads_trans)+
qed


lemma eval_list_reads: "eval_list n args es s = Some r \<Longrightarrow> reads s (state_of r)"
proof (induction es arbitrary: s r)
  case Nil
  then show ?case by (auto intro: reads_refl)
next
  case (Cons e es)
  then show ?case
    by (auto split: option.splits outcome.splits dest!: eval_reads)
       (force intro: reads_trans)+
qed

lemma enum_keys_reads: "enum_keys n r s = Some (ks, s') \<Longrightarrow> reads s s'"
proof (induction n arbitrary: r s ks s')
  case 0
  then show ?case by simp
next
  case (Suc n)
  from Suc.prems show ?case
    by (auto simp: Let_def split: option.splits hobj.splits handler.splits if_splits
        dest!: Suc.IH track_reads intro: reads_refl)
       (blast intro: reads_trans)+
qed

lemma traverse_reads:
  "(\<forall>source seen s v seen' s'. traverse n source seen s = Some (v, seen', s') \<longrightarrow> reads s s')
   \<and> (\<forall>r ks seen s seen' s'. traverse_keys n r ks seen s = Some (seen', s') \<longrightarrow> reads s s')"
proof (induction n)
  case 0
  show ?case by simp
next
  case (Suc n)
  have t: "\<And>source seen s v seen' s'. traverse n source seen s = Some (v, seen', s') \<Longrightarrow> reads s s'"
    and k: "\<And>r ks seen s seen' s'. traverse_keys n r ks seen s = Some (seen', s') \<Longrightarrow> reads s s'"
    using Suc by blast+
  have T: "reads s s'" if "traverse (Suc n) source seen s = Some (v, seen', s')"
    for source seen s v seen' s'
    using that
    by (auto split: option.splits val.splits if_splits dest!: enum_keys_reads k intro: reads_refl)
       (blast intro: reads_trans)+
  have K: "reads s s'" if "traverse_keys (Suc n) r ks seen s = Some (seen', s')"
    for r ks seen s seen' s'
    using that
    by (cases ks) (auto split: option.splits dest!: get_any_reads t k intro: reads_refl,
        (blast intro: reads_trans)+)
  show ?case using T K by blast
qed

lemma seq_Some:
  "seq m f = Some r \<Longrightarrow>
     (\<exists>x s1. m = Some (Threw x s1) \<and> r = Threw x s1) \<or> (\<exists>v s1. m = Some (Normal v s1) \<and> f v s1 = Some r)"
  by (auto simp: seq_def split: option.splits outcome.splits)

lemma lift_Some: "lift m = Some r \<Longrightarrow> \<exists>v s1. m = Some (v, s1) \<and> r = Normal v s1"
  by (auto simp: lift_def)

lemma trigger_type_reads: "trigger_type n target key s = Some r \<Longrightarrow> reads s (state_of r)"
  by (auto simp: trigger_type_def ret_def split: if_splits dest!: seq_Some lift_Some get_any_reads
      intro: reads_refl)


lemma runs_refl: "runs s b s"
  by (simp add: runs_reads reads_refl)

lemma goodD: "good s m \<Longrightarrow> m = Some r \<Longrightarrow> runs s (is_normal r) (state_of r)"
  by (simp add: good_def)

lemma good_None: "good s None"
  by (simp add: good_def)

lemma good_Normal: "runs s True s' \<Longrightarrow> good s (Some (Normal v s'))"
  by (simp add: good_def)

lemma good_ret: "runs s True s' \<Longrightarrow> good s (ret v s')"
  by (simp add: good_def ret_def)

lemma good_Threw: "runs s False s' \<Longrightarrow> good s (Some (Threw x s'))"
  by (simp add: good_def)

lemma good_seq:
  assumes "good s m" and "\<And>v s1. m = Some (Normal v s1) \<Longrightarrow> good s1 (f v s1)"
  shows "good s (seq m f)"
  unfolding good_def
proof (intro allI impI)
  fix r assume "seq m f = Some r"
  then consider x s1 where "m = Some (Threw x s1)" "r = Threw x s1"
    | v s1 where "m = Some (Normal v s1)" "f v s1 = Some r"
    using seq_Some by blast
  then show "runs s (is_normal r) (state_of r)"
  proof cases
    case 1
    with assms(1) show ?thesis by (simp add: good_def)
  next
    case 2
    from assms(1) 2(1) have "runs s True s1" by (simp add: good_def)
    moreover from assms(2) [OF 2(1)] 2(2) have "runs s1 (is_normal r) (state_of r)"
      by (simp add: good_def)
    ultimately show ?thesis by (rule runs_seq)
  qed
qed

lemma good_pre: "runs s True s1 \<Longrightarrow> good s1 m \<Longrightarrow> good s m"
  by (auto simp: good_def intro: runs_seq)

lemma good_reads_outcome: "(\<And>r. m = Some r \<Longrightarrow> reads s (state_of r)) \<Longrightarrow> good s m"
  by (simp add: good_def runs_reads)

lemma good_eval: "good s (eval n args e s)"
  by (rule good_reads_outcome) (rule eval_reads)

lemma good_eval_list: "good s (eval_list n args es s)"
  by (rule good_reads_outcome) (rule eval_list_reads)

lemma good_trigger_type: "good s (trigger_type n target key s)"
  by (rule good_reads_outcome) (rule trigger_type_reads)

lemma good_get: "good s (lift (get_any n r key receiver s))"
  by (rule good_reads_outcome) (auto dest!: lift_Some get_any_reads)

lemma define_own_Threw: "define_own receiver key v s = Threw x s' \<Longrightarrow> s' = s"
  by (auto simp: define_own_def split: option.splits hobj.splits key.splits if_splits)

lemma good_define: "good s (Some (define_own receiver key v s))"
proof (cases "define_own receiver key v s")
  case (Normal x s')
  then show ?thesis by (auto simp: good_def intro: runs_define)
next
  case (Threw x s')
  then show ?thesis using define_own_Threw [OF Threw] by (simp add: good_def runs_refl)
qed

lemma set_any_body_good:
  assumes sa: "\<And>r key v rc s. good s (sa r key v rc s)"
    and tg: "\<And>target key ty v s. good s (tg target key ty v s)"
  shows "good s (set_any_body n sa tg r key newVal receiver s)"
proof (cases "lookup_obj s r")
  case None
  then show ?thesis by (simp add: set_any_body_def good_None)
next
  case (Some ob)
  show ?thesis
  proof (cases ob)
    case (PlainObj props proto)
    with Some show ?thesis
      by (cases proto) (simp_all add: set_any_body_def good_define sa)
  next
    case (ArrayObj elems props)
    with Some show ?thesis by (simp add: set_any_body_def good_define)
  next
    case (ProxyObj target h)
    show ?thesis
    proof (cases h)
      case Basic
      with Some ProxyObj show ?thesis
        by (simp add: set_any_body_def) (intro good_seq sa tg good_ret runs_refl)
    next
      case (Reactive sh ro)
      show ?thesis
      proof (cases ro)
        case True
        with Some ProxyObj Reactive show ?thesis
          by (simp add: set_any_body_def good_ret runs_log)
      next
        case False
        have "good s4 (if Ref target = raw
                 then (if \<not> strict_eq ov newVal \<and> (strict_eq ov ov \<or> strict_eq newVal newVal)
                       then seq (tg target key ty newVal s4) (\<lambda>_ s5. ret res s5)
                       else ret res s4)
                 else ret res s4)" for s4 raw ov ty res
          by (auto intro!: good_seq tg good_ret runs_refl)
        with Some ProxyObj Reactive False show ?thesis
          by (simp add: set_any_body_def) (intro good_seq good_get good_trigger_type sa)
      qed
    qed
  qed
qed


lemma trigger_body_good:
  assumes re: "\<And>fs s. good s (re fs s)"
  shows "good s (trigger_body re target key type newVal s)"
proof (cases "map_of (effectsBuckets s) target")
  case None
  then show ?thesis by (simp add: trigger_body_def good_ret runs_triggered)
next
  case (Some depsMap)
  show ?thesis
  proof (cases "effectsToRun s depsMap target key type newVal")
    case (Inl err)
    with Some show ?thesis
      by (simp add: trigger_body_def good_def runs_seq [OF runs_triggered runs_refl])
  next
    case (Inr fs)
    with Some show ?thesis
      by (simp add: trigger_body_def good_pre [OF runs_triggered re])
  qed
qed

lemma deliver_good:
  assumes ef: "\<And>e s. good s (ef e s)" and jb: "\<And>w s. good s (jb w s)"
  shows "good s (deliver ef jb f s)"
proof (cases "scheduler (effectFns s ! f)")
  case None
  then show ?thesis
    by (simp add: deliver_def) (intro good_seq ef good_ret runs_refl)
next
  case (Some sch)
  then show ?thesis
    by (cases sch) (simp_all add: deliver_def good_ret runs_invalidate jb)
qed

lemma run_effects_body_good:
  assumes re: "\<And>fs s. good s (re fs s)"
    and ef: "\<And>e s. good s (ef e s)" and jb: "\<And>w s. good s (jb w s)"
  shows "good s (run_effects_body re ef jb fs s)"
proof (cases fs)
  case Nil
  then show ?thesis by (simp add: run_effects_body_def good_ret runs_refl)
next
  case (Cons f fs')
  then show ?thesis
    by (simp add: run_effects_body_def) (intro good_seq deliver_good ef jb re)
qed

lemma effectFn_body_good:
  assumes cf: "\<And>f en s. good s (cf f en s)"
  shows "good s (effectFn_body cf e s)"
proof (cases "e < length (effectFns s)")
  case False
  then show ?thesis by (simp add: effectFn_body_def good_None)
next
  case True
  let ?s0 = "push_effect e (cleanup e (emit (Ran e) s))"
  let ?m = "cf (fn (effectFns s ! e)) (env (effectFns s ! e)) ?s0"
  have "runs s (is_normal r) (state_of r)"
    if "seq ?m (\<lambda>res s1. ret res (pop_stack s1)) = Some r" for r
  proof -
    from that consider x s1 where "?m = Some (Threw x s1)" "r = Threw x s1"
      | v s1 where "?m = Some (Normal v s1)" "ret v (pop_stack s1) = Some r"
      using seq_Some by blast
    then show ?thesis
    proof cases
      case 1
      from goodD [OF cf 1(1)] have "runs ?s0 False s1" by simp
      with True 1(2) show ?thesis by (simp add: runs_effect_throw)
    next
      case 2
      from goodD [OF cf 2(1)] have "runs ?s0 True s1" by simp
      with True 2(2) show ?thesis by (auto simp: ret_def intro: runs_effect)
    qed
  qed
  with True show ?thesis by (simp add: effectFn_body_def good_def)
qed

lemma call_fn_body_good:
  assumes ex: "\<And>en cs s. good s (ex en cs s)"
  shows "good s (call_fn_body n ex f en s)"
proof (cases f)
  case (Fn body r)
  then show ?thesis
    by (simp add: call_fn_body_def) (intro good_seq ex good_eval)
next
  case (FnThen r body)
  then show ?thesis
    by (simp add: call_fn_body_def) (intro good_seq ex good_eval good_ret runs_refl)
next
  case (TraverseFn source)
  then show ?thesis
    using traverse_reads [of n]
    by (auto simp: call_fn_body_def good_def intro!: runs_reads)
qed

lemma exec_body_good:
  assumes ex: "\<And>en cs s. good s (ex en cs s)" and ex1: "\<And>en c s. good s (ex1 en c s)"
  shows "good s (exec_body ex ex1 en cs s)"
proof (cases cs)
  case Nil
  then show ?thesis by (simp add: exec_body_def good_ret runs_refl)
next
  case (Cons c cs')
  then show ?thesis
    by (simp add: exec_body_def) (intro good_seq ex ex1)
qed

lemma exec1_body_good:
  assumes ex: "\<And>en cs s. good s (ex en cs s)"
    and sa: "\<And>r key v rc s. good s (sa r key v rc s)"
    and ef: "\<And>f en sch lz s. good s (ef f en sch lz s)"
    and vg: "\<And>c s. good s (vg c s)"
  shows "good s (exec1_body n ex sa ef vg en c s)"
proof (cases c)
  case (Do e)
  then show ?thesis
    by (simp add: exec1_body_def) (intro good_seq good_eval good_ret runs_refl)
next
  case (Log es)
  then show ?thesis
    by (simp add: exec1_body_def) (intro good_seq good_eval_list good_ret runs_log)
next
  case (Assign obj key e)
  have "good s2 (case ov of Ref r \<Rightarrow> seq (sa r key v r s2) (\<lambda>_ s3. ret () s3)
                  | _ \<Rightarrow> Some (Threw TypeError s2))" for ov v s2
    by (cases ov) (auto intro!: good_Threw runs_refl good_seq sa good_ret)
  with Assign show ?thesis
    by (simp add: exec1_body_def) (intro good_seq good_eval)
next
  case (If b a1 a2)
  then show ?thesis
    by (simp add: exec1_body_def) (intro good_seq good_eval, simp add: ex)
next
  case (Effect body)
  then show ?thesis
    by (simp add: exec1_body_def) (intro good_seq ef good_ret runs_refl)
next
  case (Throw e)
  then show ?thesis
    by (simp add: exec1_body_def) (intro good_seq good_eval good_Threw runs_refl)
next
  case (Try body handler)
  have "runs s (is_normal r) (state_of r)"
    if r: "(case ex en body s of
              None \<Rightarrow> None
            | Some (Normal u s1) \<Rightarrow> Some (Normal u s1)
            | Some (Threw x s1) \<Rightarrow> ex en handler (emit Caught s1)) = Some r" for r
  proof (cases "ex en body s")
    case None
    with r show ?thesis by simp
  next
    case (Some out)
    show ?thesis
    proof (cases out)
      case (Normal u s1)
      with Some r goodD [OF ex Some] show ?thesis by auto
    next
      case (Threw x s1)
      with Some goodD [OF ex Some] have 1: "runs s False s1" by simp
      from Some Threw r have "ex en handler (emit Caught s1) = Some r" by simp
      from goodD [OF ex this] have "runs (emit Caught s1) (is_normal r) (state_of r)" .
      with 1 show ?thesis by (rule runs_catch)
    qed
  qed
  with Try show ?thesis by (simp add: exec1_body_def good_def)
next
  case (OnInvalidate body)
  then show ?thesis
    by (cases "snd en") (simp_all add: exec1_body_def good_Threw runs_refl good_ret runs_inval)
next
  case (ReadValue c)
  then show ?thesis
    by (simp add: exec1_body_def) (intro good_seq vg good_ret runs_refl)
qed

lemma effect_body_good:
  assumes ef: "\<And>e s. good s (ef e s)"
  shows "good s (effect_body ef f en sch lz s)"
proof (cases lz)
  case True
  then show ?thesis by (simp add: effect_body_def good_ret runs_new)
next
  case False
  have "good (new_effect f en sch lz s)
          (seq (ef (length (effectFns s)) (new_effect f en sch lz s))
             (\<lambda>_ s1. ret (length (effectFns s)) s1))"
    by (intro good_seq ef good_ret runs_refl)
  with False show ?thesis
    by (simp add: effect_body_def good_pre [OF runs_new])
qed

lemma value_get_body_good:
  assumes ef: "\<And>e s. good s (ef e s)"
  shows "good s (value_get_body ef c s)"
  by (auto simp: value_get_body_def intro!: good_None good_seq ef good_ret runs_log runs_recomputed)

lemma job_body_good:
  assumes ef: "\<And>e s. good s (ef e s)" and ex: "\<And>en cs s. good s (ex en cs s)"
  shows "good s (job_body ef ex w s)"
proof (cases "w < length (watchers s)")
  case False
  then show ?thesis by (simp add: job_body_def good_None)
next
  case True
  let ?A = "ef (w_effectFn (watchers s ! w)) (emit (Job w) s)"
  let ?B = "\<lambda>v s1. (case w_cleanup (watchers s1 ! w) of
               None \<Rightarrow> ret () (set_newValue w v s1)
             | Some f \<Rightarrow> ex (snd f) (fst f) (set_newValue w v s1))"
  let ?C = "\<lambda>s2. ex ([newValue (watchers s2 ! w), oldValue (watchers s2 ! w)], Some w)
               (cb (watchers s2 ! w))
               (emit (Called w (newValue (watchers s2 ! w)) (oldValue (watchers s2 ! w))) s2)"
  have B: "good (set_newValue w v s1) (?B v s1)" for v s1
    by (cases "w_cleanup (watchers s1 ! w)") (simp_all add: good_ret runs_refl ex)
  have "runs s (is_normal r) (state_of r)"
    if r: "seq ?A (\<lambda>v s1. seq (?B v s1) (\<lambda>_ s2. seq (?C s2)
             (\<lambda>_ s3. ret () (set_oldValue w (newValue (watchers s3 ! w)) s3)))) = Some r" for r
  proof -
    from r consider x s1 where "?A = Some (Threw x s1)" "r = Threw x s1"
      | v s1 where "?A = Some (Normal v s1)"
          "seq (?B v s1) (\<lambda>_ s2. seq (?C s2)
             (\<lambda>_ s3. ret () (set_oldValue w (newValue (watchers s3 ! w)) s3))) = Some r"
      using seq_Some [OF r] by blast
    then show ?thesis
    proof cases
      case 1
      from goodD [OF ef 1(1)] have "runs (emit (Job w) s) False s1"
        by simp
      with True 1(2) show ?thesis by (simp add: runs_job_throw1)
    next
      case 2
      from goodD [OF ef 2(1)] have A: "runs (emit (Job w) s) True s1"
        by simp
      from 2(2) consider x s2 where "?B v s1 = Some (Threw x s2)" "r = Threw x s2"
        | u s2 where "?B v s1 = Some (Normal u s2)"
            "seq (?C s2) (\<lambda>_ s3. ret () (set_oldValue w (newValue (watchers s3 ! w)) s3)) = Some r"
        using seq_Some [OF 2(2)] by blast
      then show ?thesis
      proof cases
        case 1
        from goodD [OF B 1(1)] have "runs (set_newValue w v s1) False s2" by simp
        with True A 1(2) show ?thesis by (auto intro: runs_job_throw2)
      next
        case 2
        from goodD [OF B 2(1)] have B': "runs (set_newValue w v s1) True s2" by simp
        from 2(2) consider x s3 where "?C s2 = Some (Threw x s3)" "r = Threw x s3"
          | u3 s3 where "?C s2 = Some (Normal u3 s3)"
              "ret () (set_oldValue w (newValue (watchers s3 ! w)) s3) = Some r"
          using seq_Some [OF 2(2)] by blast
        then show ?thesis
        proof cases
          case 1
          from goodD [OF ex 1(1)] have
            "runs (emit (Called w (newValue (watchers s2 ! w)) (oldValue (watchers s2 ! w))) s2) False s3"
            by simp
          with True A B' 1(2) show ?thesis by (auto intro: runs_job_throw3)
        next
          case 2
          from goodD [OF ex 2(1)] have
            "runs (emit (Called w (newValue (watchers s2 ! w)) (oldValue (watchers s2 ! w))) s2) True s3"
            by simp
          with True A B' 2(2) show ?thesis by (auto simp: ret_def intro: runs_job)
        qed
      qed
    qed
  qed
  with True show ?thesis by (simp add: job_body_def good_def)
qed


lemma all_good:
  "(\<forall>r key v rc s. good s (set_any n r key v rc s))
   \<and> (\<forall>target key ty v s. good s (trigger n target key ty v s))
   \<and> (\<forall>fs s. good s (run_effects n fs s))
   \<and> (\<forall>e s. good s (effectFn n e s))
   \<and> (\<forall>f en s. good s (call_fn n f en s))
   \<and> (\<forall>en cs s. good s (exec n en cs s))
   \<and> (\<forall>en c s. good s (exec1 n en c s))
   \<and> (\<forall>f en sch lz s. good s (effect n f en sch lz s))
   \<and> (\<forall>c s. good s (value_get n c s))
   \<and> (\<forall>w s. good s (job n w s))"
proof (induction n)
  case 0
  show ?case
    by (simp add: set_any_0 trigger_0 run_effects_0 effectFn_0 call_fn_0 exec_0 exec1_0
        effect_0 value_get_0 job_0 good_None)
next
  case (Suc n)
  then have sa: "\<And>r key v rc s. good s (set_any n r key v rc s)"
    and tg: "\<And>target key ty v s. good s (trigger n target key ty v s)"
    and re: "\<And>fs s. good s (run_effects n fs s)"
    and ef: "\<And>e s. good s (effectFn n e s)"
    and cf: "\<And>f en s. good s (call_fn n f en s)"
    and ex: "\<And>en cs s. good s (exec n en cs s)"
    and ex1: "\<And>en c s. good s (exec1 n en c s)"
    and eff: "\<And>f en sch lz s. good s (effect n f en sch lz s)"
    and vg: "\<And>c s. good s (value_get n c s)"
    and jb: "\<And>w s. good s (job n w s)"
    by auto
  show ?case
    unfolding set_any_Suc trigger_Suc run_effects_Suc effectFn_Suc call_fn_Suc exec_Suc
      exec1_Suc effect_Suc value_get_Suc job_Suc
    by (intro conjI allI set_any_body_good trigger_body_good run_effects_body_good
        effectFn_body_good call_fn_body_good exec_body_good exec1_body_good effect_body_good
        value_get_body_good job_body_good sa tg re ef cf ex ex1 eff vg jb)
qed

section \<open>Invariants of runs\<close>


lemma reads_fields:
  "reads s s' \<Longrightarrow>
     effectStack s' = effectStack s \<and> activeEffect s' = activeEffect s
     \<and> watchers s' = watchers s \<and> computeds s' = computeds s \<and> console s' = console s
     \<and> shouldTrack s' = shouldTrack s \<and> length (effectFns s') = length (effectFns s)"
  by (induction rule: reads.induct)
     (auto simp: track_add_def emit_def Let_def wrap_result_def readonly_def reactive_def
        createReactive_def split: val.splits option.splits if_splits)

lemma define_own_fields:
  "define_own receiver key v s = Normal x s' \<Longrightarrow> \<exists>h. s' = s\<lparr>heap := h\<rparr>"
  by (auto simp: define_own_def split: option.splits hobj.splits key.splits if_splits)

lemma wrap_result_trace: "trace (snd (wrap_result ro res s)) = trace s"
  by (auto simp: wrap_result_def readonly_def reactive_def createReactive_def Let_def
      split: val.splits option.splits)

lemma reads_trace:
  "reads s s' \<Longrightarrow> \<exists>new. trace s' = trace s @ new \<and> (\<forall>ev \<in> set new. \<exists>e t k. ev = Tracked e t k)"
proof (induction rule: reads.induct)
  case (reads_refl s)
  show ?case by simp
next
  case (reads_track s e target key s')
  then obtain new where "trace s' = trace (track_add e target key s) @ new"
    "\<forall>ev \<in> set new. \<exists>e t k. ev = Tracked e t k"
    by blast
  then show ?case
    by (intro exI [of _ "Tracked e target key # new"]) (auto simp: track_add_def emit_def Let_def)
next
  case (reads_wrap isReadonly res s s')
  then show ?case by (simp add: wrap_result_trace)
qed

lemma stack_okI:
  "trace s' = trace s @ new \<Longrightarrow> (b \<Longrightarrow> Caught \<notin> set new \<Longrightarrow> effectStack s' = effectStack s)
   \<Longrightarrow> effectStack s' = effectStack s @ rest \<Longrightarrow> (active_is_top s \<Longrightarrow> active_is_top s')
   \<Longrightarrow> stack_ok s b s'"
  unfolding stack_ok_def by blast

lemma stack_okD:
  "stack_ok s b s' \<Longrightarrow>
     \<exists>new rest. trace s' = trace s @ new
       \<and> (b \<and> Caught \<notin> set new \<longrightarrow> effectStack s' = effectStack s)
       \<and> effectStack s' = effectStack s @ rest
       \<and> (active_is_top s \<longrightarrow> active_is_top s')"
  unfolding stack_ok_def by blast

lemma stack_ok_same:
  "trace s' = trace s \<Longrightarrow> effectStack s' = effectStack s \<Longrightarrow> activeEffect s' = activeEffect s
   \<Longrightarrow> stack_ok s b s'"
  by (rule stack_okI [where new = "[]" and rest = "[]"]) (simp_all add: active_is_top_def)

lemma stack_ok_trans:
  assumes "stack_ok s True s1" and "stack_ok s1 b s2"
  shows "stack_ok s b s2"
proof -
  from stack_okD [OF assms(1)] obtain n1 r1 where 1: "trace s1 = trace s @ n1"
    "Caught \<notin> set n1 \<Longrightarrow> effectStack s1 = effectStack s"
    "effectStack s1 = effectStack s @ r1" "active_is_top s \<Longrightarrow> active_is_top s1"
    by auto
  from stack_okD [OF assms(2)] obtain n2 r2 where 2: "trace s2 = trace s1 @ n2"
    "b \<Longrightarrow> Caught \<notin> set n2 \<Longrightarrow> effectStack s2 = effectStack s1"
    "effectStack s2 = effectStack s1 @ r2" "active_is_top s1 \<Longrightarrow> active_is_top s2"
    by auto
  show ?thesis
    by (rule stack_okI [where new = "n1 @ n2" and rest = "r1 @ r2"])
       (use 1 2 in auto)
qed

lemma stack_ok_caught:
  assumes "stack_ok s False s1" and "stack_ok (emit Caught s1) b s2"
  shows "stack_ok s b s2"
proof -
  from stack_okD [OF assms(1)] obtain n1 r1 where 1: "trace s1 = trace s @ n1"
    "effectStack s1 = effectStack s @ r1" "active_is_top s \<Longrightarrow> active_is_top s1"
    by auto
  from stack_okD [OF assms(2)] obtain n2 r2 where 2: "trace s2 = trace (emit Caught s1) @ n2"
    "effectStack s2 = effectStack (emit Caught s1) @ r2"
    "active_is_top (emit Caught s1) \<Longrightarrow> active_is_top s2"
    by auto
  show ?thesis
    by (rule stack_okI [where new = "n1 @ Caught # n2" and rest = "r1 @ r2"])
       (use 1 2 in \<open>auto simp: emit_def active_is_top_def\<close>)
qed

lemma stack_ok_emit_before:
  assumes "stack_ok (emit ev s) b s'" and "ev \<noteq> Caught"
  shows "stack_ok s b s'"
proof -
  from stack_okD [OF assms(1)] obtain new rest where 1: "trace s' = trace (emit ev s) @ new"
    "b \<Longrightarrow> Caught \<notin> set new \<Longrightarrow> effectStack s' = effectStack (emit ev s)"
    "effectStack s' = effectStack (emit ev s) @ rest"
    "active_is_top (emit ev s) \<Longrightarrow> active_is_top s'"
    by auto
  show ?thesis
    by (rule stack_okI [where new = "ev # new" and rest = rest])
       (use 1 assms(2) in \<open>auto simp: emit_def active_is_top_def\<close>)
qed

lemma stack_ok_effect:
  assumes "stack_ok (push_effect e (cleanup e (emit (Ran e) s))) True s1"
  shows "stack_ok s True (pop_stack s1)"
proof -
  let ?s0 = "push_effect e (cleanup e (emit (Ran e) s))"
  from stack_okD [OF assms] obtain new rest where 1: "trace s1 = trace ?s0 @ new"
    "Caught \<notin> set new \<Longrightarrow> effectStack s1 = effectStack ?s0"
    "effectStack s1 = effectStack ?s0 @ rest"
    by auto
  have 0: "trace ?s0 = trace s @ [Ran e]" "effectStack ?s0 = effectStack s @ [e]"
    by (simp_all add: push_effect_def cleanup_def emit_def)
  have b: "butlast (effectStack s1) = effectStack s @ butlast (e # rest)"
    using 1(3) 0(2) by (simp add: butlast_append)
  show ?thesis
  proof (rule stack_okI [where new = "Ran e # new" and rest = "butlast (e # rest)"])
    show "trace (pop_stack s1) = trace s @ Ran e # new"
      using 1(1) 0(1) by (simp add: pop_stack_def Let_def)
    show "effectStack (pop_stack s1) = effectStack s" if "Caught \<notin> set (Ran e # new)"
      using that 1(2) 0(2) by (simp add: pop_stack_def Let_def)
    show "effectStack (pop_stack s1) = effectStack s @ butlast (e # rest)"
      using b by (simp add: pop_stack_def Let_def)
    show "active_is_top (pop_stack s1)"
      by (simp add: active_is_top_def pop_stack_def Let_def)
  qed
qed

lemma stack_ok_effect_throw:
  assumes "stack_ok (push_effect e (cleanup e (emit (Ran e) s))) False s1"
  shows "stack_ok s False s1"
proof -
  let ?s0 = "push_effect e (cleanup e (emit (Ran e) s))"
  from stack_okD [OF assms] obtain new rest where 1: "trace s1 = trace ?s0 @ new"
    "effectStack s1 = effectStack ?s0 @ rest" "active_is_top ?s0 \<Longrightarrow> active_is_top s1"
    by auto
  have 0: "trace ?s0 = trace s @ [Ran e]" "effectStack ?s0 = effectStack s @ [e]"
    "active_is_top ?s0"
    by (simp_all add: push_effect_def cleanup_def emit_def active_is_top_def)
  show ?thesis
    by (rule stack_okI [where new = "Ran e # new" and rest = "e # rest"])
       (use 1 0 in auto)
qed

lemma stack_ok_prims:
  "stack_ok s b (console_log vs s)"
  "stack_ok s b (set_dirty c d s)"
  "stack_ok s b (set_cacheValue c v s)"
  "stack_ok s b (onInvalidate w f s)"
  "stack_ok s b (new_effect g en sch lz s)"
  "stack_ok s b (set_newValue w v s)"
  "stack_ok s b (set_oldValue w v s)"
  by (rule stack_ok_same;
      simp add: console_log_def set_dirty_def set_cacheValue_def onInvalidate_def new_effect_def
        set_newValue_def set_oldValue_def)+

lemma stack_ok_emit: "ev \<noteq> Caught \<Longrightarrow> stack_ok s b (emit ev s)"
  by (rule stack_okI [where new = "[ev]" and rest = "[]"]) (simp_all add: emit_def active_is_top_def)

lemma stack_ok_weaken: "stack_ok s True s' \<Longrightarrow> stack_ok s b s'"
  unfolding stack_ok_def by auto

lemma runs_stack_ok: "runs s b s' \<Longrightarrow> stack_ok s b s'"
proof (induction rule: runs.induct)
  case (runs_reads s s' b)
  from reads_trace [OF runs_reads] obtain new where "trace s' = trace s @ new" "Caught \<notin> set new"
    by force
  then show ?case
    using reads_fields [OF runs_reads]
    by (intro stack_okI [where new = new and rest = "[]"]) (simp_all add: active_is_top_def)
next
  case (runs_seq s s1 b s2)
  then show ?case by (blast intro: stack_ok_trans)
next
  case (runs_define receiver key v s x s')
  from define_own_fields [OF runs_define] show ?case by (auto intro: stack_ok_same)
next
  case (runs_recomputed s vs c v)
  have "stack_ok s True (emit (Recomputed c) s)" by (simp add: stack_ok_emit)
  then show ?case by (blast intro: stack_ok_trans stack_ok_prims)
next
  case (runs_catch s s1 b s2)
  then show ?case by (blast intro: stack_ok_caught)
next
  case (runs_effect e s s1)
  then show ?case by (blast intro: stack_ok_effect)
next
  case (runs_effect_throw e s s1)
  then show ?case by (blast intro: stack_ok_effect_throw)
next
  case (runs_job w s s1 v s2 s3)
  let ?c = "Called w (newValue (watchers s2 ! w)) (oldValue (watchers s2 ! w))"
  have "stack_ok s True s1"
    using runs_job.IH(1) by (rule stack_ok_emit_before) simp
  moreover have "stack_ok s1 True s2"
    using stack_ok_prims(6) runs_job.IH(2) by (rule stack_ok_trans)
  moreover have "stack_ok s2 True s3"
    using runs_job.IH(3) by (rule stack_ok_emit_before) simp
  ultimately show ?case by (blast intro: stack_ok_trans stack_ok_prims)
next
  case (runs_job_throw1 w s s1)
  show ?case using runs_job_throw1.IH by (rule stack_ok_emit_before) simp
next
  case (runs_job_throw2 w s s1 v s2)
  have "stack_ok s True s1"
    using runs_job_throw2.IH(1) by (rule stack_ok_emit_before) simp
  moreover have "stack_ok s1 False s2"
    using stack_ok_prims(6) runs_job_throw2.IH(2) by (rule stack_ok_trans)
  ultimately show ?case by (blast intro: stack_ok_trans)
next
  case (runs_job_throw3 w s s1 v s2 s3)
  have "stack_ok s True s1"
    using runs_job_throw3.IH(1) by (rule stack_ok_emit_before) simp
  moreover have "stack_ok s1 True s2"
    using stack_ok_prims(6) runs_job_throw3.IH(2) by (rule stack_ok_trans)
  moreover have "stack_ok s2 False s3"
    using runs_job_throw3.IH(3) by (rule stack_ok_emit_before) simp
  ultimately show ?case by (blast intro: stack_ok_trans)
qed (simp_all add: stack_ok_prims stack_ok_emit)























lemma quietI:
  "length (watchers s') = length (watchers s) \<Longrightarrow> trace s' = trace s @ new
   \<Longrightarrow> (Job w \<notin> set new \<Longrightarrow> calls_of w new = [])
   \<Longrightarrow> (Job w \<notin> set new \<Longrightarrow> w < length (watchers s) \<Longrightarrow>
          oldValue (watchers s' ! w) = oldValue (watchers s ! w)
          \<and> newValue (watchers s' ! w) = newValue (watchers s ! w))
   \<Longrightarrow> quiet w s s'"
  unfolding quiet_def by blast

lemma quietD:
  "quiet w s s' \<Longrightarrow>
     \<exists>new. length (watchers s') = length (watchers s) \<and> trace s' = trace s @ new
       \<and> (Job w \<notin> set new \<longrightarrow> calls_of w new = [])
       \<and> (Job w \<notin> set new \<longrightarrow> w < length (watchers s) \<longrightarrow>
            oldValue (watchers s' ! w) = oldValue (watchers s ! w)
            \<and> newValue (watchers s' ! w) = newValue (watchers s ! w))"
  unfolding quiet_def by blast

lemma quiet_same:
  "watchers s' = watchers s \<Longrightarrow> trace s' = trace s \<Longrightarrow> quiet w s s'"
  by (rule quietI [where new = "[]"]) (simp_all add: calls_of_def)

lemma quiet_trans:
  assumes "quiet w s s1" and "quiet w s1 s2"
  shows "quiet w s s2"
proof -
  from quietD [OF assms(1)] obtain n1 where 1: "length (watchers s1) = length (watchers s)"
    "trace s1 = trace s @ n1" "Job w \<notin> set n1 \<Longrightarrow> calls_of w n1 = []"
    "Job w \<notin> set n1 \<Longrightarrow> w < length (watchers s) \<Longrightarrow>
          oldValue (watchers s1 ! w) = oldValue (watchers s ! w)
          \<and> newValue (watchers s1 ! w) = newValue (watchers s ! w)"
    by blast
  from quietD [OF assms(2)] obtain n2 where 2: "length (watchers s2) = length (watchers s1)"
    "trace s2 = trace s1 @ n2" "Job w \<notin> set n2 \<Longrightarrow> calls_of w n2 = []"
    "Job w \<notin> set n2 \<Longrightarrow> w < length (watchers s1) \<Longrightarrow>
          oldValue (watchers s2 ! w) = oldValue (watchers s1 ! w)
          \<and> newValue (watchers s2 ! w) = newValue (watchers s1 ! w)"
    by blast
  show ?thesis
  proof (rule quietI [where new = "n1 @ n2"])
    show "length (watchers s2) = length (watchers s)" using 1(1) 2(1) by simp
    show "trace s2 = trace s @ n1 @ n2" using 1(2) 2(2) by simp
    show "calls_of w (n1 @ n2) = []" if "Job w \<notin> set (n1 @ n2)"
      using that 1(3) 2(3) by (simp add: calls_of_def)
    show "oldValue (watchers s2 ! w) = oldValue (watchers s ! w)
          \<and> newValue (watchers s2 ! w) = newValue (watchers s ! w)"
      if "Job w \<notin> set (n1 @ n2)" "w < length (watchers s)"
      using that 1(1) 1(4) 2(4) by simp
  qed
qed

lemma quiet_emit_before:
  assumes "quiet w (emit ev s) s'" and "\<not> is_call w ev"
  shows "quiet w s s'"
proof -
  from quietD [OF assms(1)] obtain new where 1: "length (watchers s') = length (watchers (emit ev s))"
    "trace s' = trace (emit ev s) @ new" "Job w \<notin> set new \<Longrightarrow> calls_of w new = []"
    "Job w \<notin> set new \<Longrightarrow> w < length (watchers (emit ev s)) \<Longrightarrow>
          oldValue (watchers s' ! w) = oldValue (watchers (emit ev s) ! w)
          \<and> newValue (watchers s' ! w) = newValue (watchers (emit ev s) ! w)"
    by blast
  show ?thesis
    by (rule quietI [where new = "ev # new"])
       (use 1 assms(2) in \<open>auto simp: emit_def calls_of_def\<close>)
qed

lemma reads_quiet: "reads s s' \<Longrightarrow> quiet w s s'"
proof (induction rule: reads.induct)
  case (reads_refl s)
  show ?case by (simp add: quiet_same)
next
  case (reads_track s e target key s')
  have "quiet w s (track_add e target key s)"
    by (rule quietI [where new = "[Tracked e target key]"])
       (simp_all add: track_add_def emit_def Let_def calls_of_def)
  with reads_track.IH show ?case by (rule quiet_trans [rotated])
next
  case (reads_wrap isReadonly res s s')
  have "quiet w s (snd (wrap_result isReadonly res s))"
    by (rule quiet_same)
       (auto simp: wrap_result_def readonly_def reactive_def createReactive_def Let_def
          split: val.splits option.splits)
  with reads_wrap.IH show ?case by (rule quiet_trans [rotated])
qed

lemma quiet_prims:
  "quiet w s (console_log vs s)"
  "quiet w s (set_dirty c d s)"
  "quiet w s (set_cacheValue c v s)"
  "quiet w s (new_effect f en sch lz s)"
  "quiet w s (pop_stack s)"
  "quiet w s (emit (Triggered target key type newVal) s)"
  "quiet w s (push_effect e (cleanup e (emit (Ran e) s)))"
       apply (rule quiet_same; simp add: console_log_def)
      apply (rule quiet_same; simp add: set_dirty_def)
     apply (rule quiet_same; simp add: set_cacheValue_def)
    apply (rule quiet_same; simp add: new_effect_def)
   apply (rule quiet_same; simp add: pop_stack_def Let_def)
  apply (rule quietI [where new = "[Triggered target key type newVal]"];
      simp add: emit_def calls_of_def)
  apply (rule quietI [where new = "[Ran e]"];
      simp add: emit_def calls_of_def push_effect_def cleanup_def)
  done

lemma nth_update_field:
  assumes "\<And>x. f (g x) = f x"
  shows "f (xs[i := g (xs ! i)] ! j) = f (xs ! j)"
proof (cases "i < length xs")
  case True
  then show ?thesis by (cases "i = j") (simp_all add: assms)
next
  case False
  then show ?thesis by (simp add: list_update_beyond)
qed

lemma quiet_onInvalidate: "quiet w s (onInvalidate w' f s)"
  by (rule quietI [where new = "[]"])
     (simp_all add: onInvalidate_def calls_of_def
        nth_update_field [where g = "\<lambda>x. x\<lparr>w_cleanup := Some f\<rparr>"])

lemma quiet_set_newValue: "w' \<noteq> w \<Longrightarrow> quiet w s (set_newValue w' v s)"
  by (rule quietI [where new = "[]"]) (auto simp: set_newValue_def calls_of_def)

lemma quiet_set_oldValue: "w' \<noteq> w \<Longrightarrow> quiet w s (set_oldValue w' v s)"
  by (rule quietI [where new = "[]"]) (auto simp: set_oldValue_def calls_of_def)

lemma quiet_job_self:
  assumes "length (watchers s') = length (watchers s)" and "trace s' = trace s @ Job w # new"
  shows "quiet w s s'"
  by (rule quietI [where new = "Job w # new"]) (use assms in simp_all)


lemma runs_quiet: "runs s b s' \<Longrightarrow> quiet w s s'"
proof (induction rule: runs.induct)
  case (runs_reads s s' b)
  then show ?case by (simp add: reads_quiet)
next
  case (runs_seq s s1 b s2)
  then show ?case by (blast intro: quiet_trans)
next
  case (runs_define receiver key v s x s')
  then show ?case using define_own_fields [OF runs_define.hyps] by (auto intro: quiet_same)
next
  case (runs_effect e s s1)
  then show ?case by (blast intro: quiet_trans quiet_prims)
next
  case (runs_effect_throw e s s1)
  then show ?case by (blast intro: quiet_trans quiet_prims)
next
  case (runs_job w' s s1 v s2 s3)
  let ?c = "Called w' (newValue (watchers s2 ! w')) (oldValue (watchers s2 ! w'))"
  let ?s' = "set_oldValue w' (newValue (watchers s3 ! w')) s3"
  show ?case
  proof (cases "w' = w")
    case True
    from quietD [OF runs_job.IH(1)] quietD [OF runs_job.IH(2)]
      quietD [OF runs_job.IH(3)]
    obtain n1 n2 n3 where "length (watchers s1) = length (watchers (emit (Job w') s))"
      "trace s1 = trace (emit (Job w') s) @ n1"
      "length (watchers s2) = length (watchers (set_newValue w' v s1))"
      "trace s2 = trace (set_newValue w' v s1) @ n2"
      "length (watchers s3) = length (watchers (emit ?c s2))"
      "trace s3 = trace (emit ?c s2) @ n3"
      by blast
    then have "length (watchers ?s') = length (watchers s)"
      "trace ?s' = trace s @ Job w # (n1 @ n2 @ ?c # n3)"
      using True by (simp_all add: emit_def set_newValue_def set_oldValue_def)
    then show ?thesis by (rule quiet_job_self)
  next
    case False
    have "quiet w s s1"
      using runs_job.IH(1) by (rule quiet_emit_before) simp
    moreover have "quiet w s1 s2"
      using quiet_set_newValue [OF False] runs_job.IH(2) by (rule quiet_trans)
    moreover have "quiet w s2 s3"
      using runs_job.IH(3) by (rule quiet_emit_before) (simp add: False)
    moreover have "quiet w s3 ?s'" by (rule quiet_set_oldValue [OF False])
    ultimately show ?thesis by (blast intro: quiet_trans)
  qed
next
  case (runs_job_throw1 w' s s1)
  show ?case using runs_job_throw1.IH by (rule quiet_emit_before) simp
next
  case (runs_job_throw2 w' s s1 v s2)
  show ?case
  proof (cases "w' = w")
    case True
    from quietD [OF runs_job_throw2.IH(1)] quietD [OF runs_job_throw2.IH(2)]
    obtain n1 n2 where "length (watchers s1) = length (watchers (emit (Job w') s))"
      "trace s1 = trace (emit (Job w') s) @ n1"
      "length (watchers s2) = length (watchers (set_newValue w' v s1))"
      "trace s2 = trace (set_newValue w' v s1) @ n2"
      by blast
    then have "length (watchers s2) = length (watchers s)"
      "trace s2 = trace s @ Job w # (n1 @ n2)"
      using True by (simp_all add: emit_def set_newValue_def)
    then show ?thesis by (rule quiet_job_self)
  next
    case False
    have "quiet w s s1"
      using runs_job_throw2.IH(1) by (rule quiet_emit_before) simp
    moreover have "quiet w s1 s2"
      using quiet_set_newValue [OF False] runs_job_throw2.IH(2) by (rule quiet_trans)
    ultimately show ?thesis by (blast intro: quiet_trans)
  qed
next
  case (runs_job_throw3 w' s s1 v s2 s3)
  let ?c = "Called w' (newValue (watchers s2 ! w')) (oldValue (watchers s2 ! w'))"
  show ?case
  proof (cases "w' = w")
    case True
    from quietD [OF runs_job_throw3.IH(1)] quietD [OF runs_job_throw3.IH(2)]
      quietD [OF runs_job_throw3.IH(3)]
    obtain n1 n2 n3 where "length (watchers s1) = length (watchers (emit (Job w') s))"
      "trace s1 = trace (emit (Job w') s) @ n1"
      "length (watchers s2) = length (watchers (set_newValue w' v s1))"
      "trace s2 = trace (set_newValue w' v s1) @ n2"
      "length (watchers s3) = length (watchers (emit ?c s2))"
      "trace s3 = trace (emit ?c s2) @ n3"
      by blast
    then have "length (watchers s3) = length (watchers s)"
      "trace s3 = trace s @ Job w # (n1 @ n2 @ ?c # n3)"
      using True by (simp_all add: emit_def set_newValue_def)
    then show ?thesis by (rule quiet_job_self)
  next
    case False
    have "quiet w s s1"
      using runs_job_throw3.IH(1) by (rule quiet_emit_before) simp
    moreover have "quiet w s1 s2"
      using quiet_set_newValue [OF False] runs_job_throw3.IH(2) by (rule quiet_trans)
    moreover have "quiet w s2 s3"
      using runs_job_throw3.IH(3) by (rule quiet_emit_before) (simp add: False)
    ultimately show ?thesis by (blast intro: quiet_trans)
  qed
next
  case (runs_recomputed s vs c v)
  have "quiet w s (emit (Recomputed c) s)"
    by (rule quietI [where new = "[Recomputed c]"]) (simp_all add: emit_def calls_of_def)
  then show ?case by (blast intro: quiet_trans quiet_prims)
next
  case (runs_catch s s1 b s2)
  have "quiet w s1 s2"
    using runs_catch.IH(2) by (rule quiet_emit_before) simp
  with runs_catch.IH(1) show ?case by (rule quiet_trans)
qed (simp_all add: quiet_prims quiet_onInvalidate)


lemma set_any_runs: "set_any n r key v rc s = Some res \<Longrightarrow> runs s (is_normal res) (state_of res)"
  by (rule goodD [OF all_good [THEN conjunct1, rule_format]])

lemma trigger_runs: "trigger n target key ty v s = Some r \<Longrightarrow> runs s (is_normal r) (state_of r)"
  by (rule goodD [OF all_good [THEN conjunct2, THEN conjunct1, rule_format]])

lemma effectFn_runs: "effectFn n e s = Some r \<Longrightarrow> runs s (is_normal r) (state_of r)"
  by (rule goodD [OF all_good [THEN conjunct2, THEN conjunct2, THEN conjunct2, THEN conjunct1, rule_format]])

lemma call_fn_runs: "call_fn n f en s = Some r \<Longrightarrow> runs s (is_normal r) (state_of r)"
  by (rule goodD [OF all_good [THEN conjunct2, THEN conjunct2, THEN conjunct2, THEN conjunct2, THEN conjunct1, rule_format]])

lemma exec_runs: "exec n en cs s = Some r \<Longrightarrow> runs s (is_normal r) (state_of r)"
  by (rule goodD [OF all_good [THEN conjunct2, THEN conjunct2, THEN conjunct2, THEN conjunct2, THEN conjunct2, THEN conjunct1, rule_format]])


lemma value_get_runs: "value_get n c s = Some r \<Longrightarrow> runs s (is_normal r) (state_of r)"
  by (rule goodD [OF all_good [THEN conjunct2, THEN conjunct2, THEN conjunct2, THEN conjunct2, THEN conjunct2, THEN conjunct2, THEN conjunct2, THEN conjunct2, THEN conjunct1, rule_format]])

lemma job_runs: "job n w s = Some r \<Longrightarrow> runs s (is_normal r) (state_of r)"
  by (rule goodD [OF all_good [THEN conjunct2, THEN conjunct2, THEN conjunct2, THEN conjunct2, THEN conjunct2, THEN conjunct2, THEN conjunct2, THEN conjunct2, THEN conjunct2, rule_format]])

lemma effectFn_SomeD:
  assumes "effectFn n e s = Some r"
  shows "e < length (effectFns s) \<and>
         (\<exists>m. n = Suc m \<and>
            ((\<exists>x s1. call_fn m (fn (effectFns s ! e)) (env (effectFns s ! e))
                        (push_effect e (cleanup e (emit (Ran e) s))) = Some (Threw x s1)
                      \<and> r = Threw x s1)
             \<or> (\<exists>v s1. call_fn m (fn (effectFns s ! e)) (env (effectFns s ! e))
                          (push_effect e (cleanup e (emit (Ran e) s))) = Some (Normal v s1)
                        \<and> r = Normal v (pop_stack s1))))"
proof (cases n)
  case 0
  with assms show ?thesis by (simp add: effectFn_0)
next
  case (Suc m)
  with assms have b: "effectFn_body (call_fn m) e s = Some r" by (simp add: effectFn_Suc)
  then have r: "e < length (effectFns s)"
    by (auto simp: effectFn_body_def split: if_splits)
  with b have "seq (call_fn m (fn (effectFns s ! e)) (env (effectFns s ! e))
                      (push_effect e (cleanup e (emit (Ran e) s))))
                 (\<lambda>res s1. ret res (pop_stack s1)) = Some r"
    by (simp add: effectFn_body_def)
  from seq_Some [OF this] r Suc show ?thesis by (auto simp: ret_def)
qed

section \<open>Writes through a read-only proxy\<close>

text \<open>
  C9. Writing any property through a read-only proxy is a no-op that reports success: the
  \<open>set\<close> trap returns \<open>true\<close> without throwing, and the state after it is the state
  before it with one more line on the console, the warning. So the raw object and the whole
  heap are unchanged, \<open>trigger\<close> is not called (the history is unchanged), and no effect
  is scheduled or run. The same holds for the assignment statement \<open>p[key] = v\<close>.
\<close>

theorem readonly_set_is_noop:
  assumes "lookup_obj s p = Some (ProxyObj target (Reactive isShallow True))"
  shows "set_any (Suc n) p key newVal receiver s
           = Some (Normal True (s\<lparr>console := console s @ [[Str ''set failed: readonly'']]\<rparr>))
         \<and> exec1 (Suc (Suc n)) en (Assign (Lit (Ref p)) key (Lit newVal)) s
           = Some (Normal () (s\<lparr>console := console s @ [[Str ''set failed: readonly'']]\<rparr>))"
  using assms
  by (simp add: set_any_Suc exec1_Suc set_any_body_def exec1_body_def seq_def ret_def
      console_log_def)

theorem readonly_set_is_noop_witness:
  "lookup_obj readonly_state 1 = Some (ProxyObj 0 (Reactive False True))
   \<and> set_any (Suc 0) 1 (Name ''bar'') (Num 3) 1 readonly_state
       = Some (Normal True (readonly_state\<lparr>console := [[Str ''set failed: readonly'']]\<rparr>))
   \<and> heap readonly_state = [PlainObj [(Name ''bar'', Num 1)] None, ProxyObj 0 (Reactive False True)]"
proof -
  have h: "lookup_obj readonly_state 1 = Some (ProxyObj 0 (Reactive False True))"
    by (simp add: readonly_state_def readonly_def createReactive_def init_def lookup_obj_def)
  have c: "console readonly_state = []"
    by (simp add: readonly_state_def readonly_def createReactive_def init_def)
  have hp: "heap readonly_state = [PlainObj [(Name ''bar'', Num 1)] None, ProxyObj 0 (Reactive False True)]"
    by (simp add: readonly_state_def readonly_def createReactive_def init_def)
  show ?thesis
    using readonly_set_is_noop [OF h, of 0 "Name ''bar''" "Num 3" 1] h c hp by simp
qed

section \<open>The search methods on a reactive array\<close>

text \<open>
  C8. For \<open>const obj = {}; const a = reactive([obj])\<close>, \<open>a.includes(obj)\<close> is \<open>true\<close>:
  the search through the proxy compares wrappers and fails, and the result \<open>false\<close> sends
  the method to the raw array. \<open>a.indexOf(obj)\<close> and \<open>a.lastIndexOf(obj)\<close> are \<open>-1\<close>:
  their unsuccessful result is \<open>-1\<close>, which the test \<open>res === false\<close> does not catch,
  so the raw array, where the object is at index 0, is never searched.
\<close>

theorem search_methods_on_raw_element:
  "returned (eval 10 [] (Call (Lit (Ref 2)) ''includes'' (Lit (Ref 0))) includes_state) = Some (Bool True)
   \<and> returned (eval 10 [] (Call (Lit (Ref 2)) ''indexOf'' (Lit (Ref 0))) includes_state) = Some (Num (- 1))
   \<and> returned (eval 10 [] (Call (Lit (Ref 2)) ''lastIndexOf'' (Lit (Ref 0))) includes_state) = Some (Num (- 1))
   \<and> map_option fst (originMethod 10 ''indexOf'' 1 (Ref 0) includes_state) = Some (Num 0)
   \<and> map_option fst (originMethod 10 ''lastIndexOf'' 1 (Ref 0) includes_state) = Some (Num 0)"
  by code_simp

section \<open>An exception in an effect function\<close>

text \<open>
  C7, as the code has it. \<open>effectFn\<close> pops the stack after the call of the user function
  and nothing catches an exception, so when the user function throws, the exception
  leaves the call with the stack not restored: for \<open>effect(() => { throw 'boom' })\<close> at the
  top level the stack holds the effect afterwards and it is still the active effect, where
  the claim has an empty stack and no active effect.
\<close>

theorem throw_leaves_stack_counterexample:
  "thrown (effectFn 5 0 throwing_state) = Some (Str ''boom'')
   \<and> effectStack throwing_state = [] \<and> activeEffect throwing_state = None
   \<and> effectStack (final (effectFn 5 0 throwing_state)) = [0]
   \<and> activeEffect (final (effectFn 5 0 throwing_state)) = Some 0"
  by code_simp

text \<open>
  C7, amended. If the user function of an effect throws, the exception leaves the call,
  the effect is still on the stack above the entries that were there before the call, and
  the active effect is the top of that stack: the stack is restored on a normal return
  only.
\<close>

theorem throw_leaves_effect_on_stack:
  assumes "effectFn n e s = Some (Threw x s')"
  shows "(\<exists>rest. effectStack s' = effectStack s @ e # rest)
         \<and> activeEffect s' = Some (last (effectStack s'))"
proof -
  let ?s0 = "push_effect e (cleanup e (emit (Ran e) s))"
  from effectFn_SomeD [OF assms] obtain m where
    c: "call_fn m (fn (effectFns s ! e)) (env (effectFns s ! e)) ?s0 = Some (Threw x s')"
    by auto
  from runs_stack_ok [OF call_fn_runs [OF c]]
  obtain rest where r: "effectStack s' = effectStack ?s0 @ rest"
    and a: "active_is_top ?s0 \<longrightarrow> active_is_top s'"
    by (auto simp: stack_ok_def)
  have "active_is_top ?s0"
    by (simp add: active_is_top_def push_effect_def cleanup_def emit_def)
  with a have "active_is_top s'" by simp
  moreover from r have st: "effectStack s' = effectStack s @ e # rest"
    by (simp add: push_effect_def cleanup_def emit_def)
  ultimately show ?thesis by (auto simp: active_is_top_def)
qed

theorem throw_leaves_effect_on_stack_witness:
  "thrown (effectFn 5 0 throwing_state) = Some (Str ''boom'')
   \<and> (\<exists>rest. effectStack (final (effectFn 5 0 throwing_state)) = effectStack throwing_state @ 0 # rest)
   \<and> activeEffect (final (effectFn 5 0 throwing_state))
       = Some (last (effectStack (final (effectFn 5 0 throwing_state))))"
proof -
  have t: "thrown (effectFn 5 0 throwing_state) = Some (Str ''boom'')"
    by code_simp
  then obtain s' where r: "effectFn 5 0 throwing_state = Some (Threw (Str ''boom'') s')"
    by (auto simp: thrown_def split: option.splits outcome.splits)
  from throw_leaves_effect_on_stack [OF r] t r show ?thesis
    by (simp add: final_def)
qed

section \<open>Membership in the dependency sets\<close>




lemma trace_extends: "runs s b s' \<Longrightarrow> \<exists>new. trace s' = trace s @ new"
  using quietD [OF runs_quiet [of s b s' 0]] by blast




section \<open>The effects that \<open>trigger\<close> assembles\<close>

lemma set_add_effects: "set (add_effects a es acc) = set acc \<union> {f \<in> set es. Some f \<noteq> a}"
  unfolding add_effects_def
  by (induction es arbitrary: acc) auto

lemma length_effects_Inr:
  assumes "\<forall>k \<in> fst ` set m. \<not> is_symbol k"
  shows "\<exists>r. length_effects a v m acc = Inr r
            \<and> set r = set acc \<union> {f. \<exists>k es. (k, es) \<in> set m \<and> key_ge k v = Some True
                                         \<and> f \<in> set es \<and> Some f \<noteq> a}"
  using assms
proof (induction m arbitrary: acc)
  case Nil
  then show ?case by simp
next
  case (Cons p m)
  obtain k es where p: "p = (k, es)" by (cases p)
  from Cons.prems p obtain b where b: "key_ge k v = Some b" by (cases k) auto
  from Cons.prems have "\<forall>k \<in> fst ` set m. \<not> is_symbol k" by simp
  from Cons.IH [OF this, of "if b then add_effects a es acc else acc"]
  obtain r where r: "length_effects a v m (if b then add_effects a es acc else acc) = Inr r"
    "set r = set (if b then add_effects a es acc else acc)
              \<union> {f. \<exists>k es. (k, es) \<in> set m \<and> key_ge k v = Some True \<and> f \<in> set es \<and> Some f \<noteq> a}"
    by blast
  show ?case
    using r b p by (cases b) (auto simp: set_add_effects)
qed

lemma length_effects_excludes:
  "length_effects a v m acc = Inr r \<Longrightarrow> a = Some e \<Longrightarrow> e \<notin> set acc \<Longrightarrow> e \<notin> set r"
proof (induction m arbitrary: acc)
  case Nil
  then show ?case by simp
next
  case (Cons p m)
  obtain k es where p: "p = (k, es)" by (cases p)
  from Cons.prems(1) p obtain b where b: "key_ge k v = Some b"
    and l: "length_effects a v m (if b then add_effects a es acc else acc) = Inr r"
    by (auto split: option.splits)
  have "e \<notin> set (if b then add_effects a es acc else acc)"
    using Cons.prems(2,3) by (simp add: set_add_effects)
  from Cons.IH [OF l Cons.prems(2) this] show ?case .
qed

lemma effectsToRun_excludes_active:
  assumes "effectsToRun s depsMap target key type newVal = Inr fs" and "activeEffect s = Some e"
  shows "e \<notin> set fs"
proof -
  let ?a = "activeEffect s"
  let ?r1 = "add_effects ?a (get_set depsMap key) []"
  let ?r2 = "if isArray s target \<and> type = ADD
             then add_effects ?a (get_set depsMap (Name ''length'')) ?r1 else ?r1"
  have 2: "e \<notin> set ?r2" using assms(2) by (simp add: set_add_effects)
  from assms(1) obtain r where
    r: "(if isArray s target \<and> key = Name ''length''
         then length_effects ?a newVal depsMap ?r2 else Inr ?r2) = Inr r"
    and fs: "fs = (if type = ADD \<or> type = DELETE
                   then add_effects ?a (get_set depsMap ITERATE_KEY) r else r)"
    by (auto simp: effectsToRun_def Let_def split: sum.splits)
  have "e \<notin> set r"
  proof (cases "isArray s target \<and> key = Name ''length''")
    case True
    with r have "length_effects ?a newVal depsMap ?r2 = Inr r" by simp
    from length_effects_excludes [OF this assms(2) 2] show ?thesis .
  next
    case False
    with r 2 show ?thesis by auto
  qed
  with fs assms(2) show ?thesis by (simp add: set_add_effects)
qed

lemma add_effects_Nil: "add_effects a [] acc = acc"
  by (simp add: add_effects_def)

lemma get_set_subscribers:
  "map_of (effectsBuckets s) target = Some depsMap \<Longrightarrow> get_set depsMap key = subscribers s target key"
  by (simp add: get_set_def subscribers_def)

lemma get_set_symbol:
  assumes "\<forall>k \<in> fst ` set depsMap. \<not> is_symbol k" and "is_symbol key"
  shows "get_set depsMap key = []"
proof (cases "map_of depsMap key")
  case None
  then show ?thesis by (simp add: get_set_def)
next
  case (Some d)
  then have "key \<in> fst ` set depsMap" by (metis map_of_SomeD fst_conv image_eqI)
  with assms show ?thesis by blast
qed

lemma effectsToRun_length:
  assumes m: "map_of (effectsBuckets s) target = Some depsMap"
    and a: "isArray s target"
    and d: "distinct (map fst depsMap)"
    and y: "\<forall>k \<in> fst ` set depsMap. \<not> is_symbol k"
  shows "\<exists>fs. effectsToRun s depsMap target (Name ''length'') type (Num v) = Inr fs
           \<and> set fs = {f. Some f \<noteq> activeEffect s
                          \<and> (f \<in> set (subscribers s target (Name ''length''))
                              \<or> (\<exists>i. v \<le> int i \<and> f \<in> set (subscribers s target (Index i))))}"
proof -
  let ?a = "activeEffect s"
  let ?r1 = "add_effects ?a (get_set depsMap (Name ''length'')) []"
  let ?r2 = "if type = ADD then add_effects ?a (get_set depsMap (Name ''length'')) ?r1 else ?r1"
  have r2: "set ?r2 = {f \<in> set (subscribers s target (Name ''length'')). Some f \<noteq> ?a}"
    by (auto simp: set_add_effects get_set_subscribers [OF m])
  from length_effects_Inr [OF y, of ?a "Num v" ?r2]
  obtain r where r: "length_effects ?a (Num v) depsMap ?r2 = Inr r"
    and sr: "set r = set ?r2 \<union> {f. \<exists>k es. (k, es) \<in> set depsMap \<and> key_ge k (Num v) = Some True
                                         \<and> f \<in> set es \<and> Some f \<noteq> ?a}"
    by blast
  have ent: "(\<exists>k es. (k, es) \<in> set depsMap \<and> key_ge k (Num v) = Some True \<and> f \<in> set es)
               = (\<exists>i. v \<le> int i \<and> f \<in> set (subscribers s target (Index i)))" for f
  proof
    assume "\<exists>k es. (k, es) \<in> set depsMap \<and> key_ge k (Num v) = Some True \<and> f \<in> set es"
    then obtain k es where k: "(k, es) \<in> set depsMap" "key_ge k (Num v) = Some True" "f \<in> set es"
      by blast
    from k(2) obtain i where i: "k = Index i" "v \<le> int i" by (cases k) auto
    from k(1) d have "map_of depsMap k = Some es" by simp
    with i k(3) show "\<exists>i. v \<le> int i \<and> f \<in> set (subscribers s target (Index i))"
      by (auto simp: get_set_subscribers [OF m, symmetric] get_set_def)
  next
    assume "\<exists>i. v \<le> int i \<and> f \<in> set (subscribers s target (Index i))"
    then obtain i where i: "v \<le> int i" "f \<in> set (get_set depsMap (Index i))"
      by (auto simp: get_set_subscribers [OF m])
    then obtain es where "map_of depsMap (Index i) = Some es" "f \<in> set es"
      by (cases "map_of depsMap (Index i)") (auto simp: get_set_def)
    with i(1) show "\<exists>k es. (k, es) \<in> set depsMap \<and> key_ge k (Num v) = Some True \<and> f \<in> set es"
      by (intro exI [of _ "Index i"] exI [of _ es]) (auto dest: map_of_SomeD)
  qed
  have it: "get_set depsMap ITERATE_KEY = []"
    using get_set_symbol [OF y] by (simp add: ITERATE_KEY_def)
  have "effectsToRun s depsMap target (Name ''length'') type (Num v) = Inr r"
    using a r it by (cases "type = ADD") (simp_all add: effectsToRun_def Let_def add_effects_Nil)
  moreover have "set r = {f. Some f \<noteq> ?a
                          \<and> (f \<in> set (subscribers s target (Name ''length''))
                              \<or> (\<exists>i. v \<le> int i \<and> f \<in> set (subscribers s target (Index i))))}"
    unfolding sr r2 using ent by blast
  ultimately show ?thesis by blast
qed

lemma length_effects_bounds:
  "length_effects a v m acc = Inr r \<Longrightarrow>
     set acc \<subseteq> set r
     \<and> set r \<subseteq> set acc \<union> {f. \<exists>k es. (k, es) \<in> set m \<and> f \<in> set es \<and> Some f \<noteq> a}"
proof (induction m arbitrary: acc)
  case Nil
  then show ?case by simp
next
  case (Cons p m)
  obtain k es where p: "p = (k, es)" by (cases p)
  from Cons.prems p obtain b where b: "key_ge k v = Some b"
    and l: "length_effects a v m (if b then add_effects a es acc else acc) = Inr r"
    by (auto split: option.splits)
  from Cons.IH [OF l] show ?case
    unfolding p by (cases b) (auto simp: set_add_effects, blast+)
qed

lemma get_set_in: "f \<in> set (get_set depsMap k) \<Longrightarrow> \<exists>es. (k, es) \<in> set depsMap \<and> f \<in> set es"
  by (cases "map_of depsMap k") (auto simp: get_set_def dest: map_of_SomeD)

lemma effectsToRun_bounds:
  assumes "effectsToRun s depsMap target key type newVal = Inr fs"
  shows "{f \<in> set (get_set depsMap key). Some f \<noteq> activeEffect s} \<subseteq> set fs"
    and "set fs \<subseteq> {f. \<exists>k es. (k, es) \<in> set depsMap \<and> f \<in> set es \<and> Some f \<noteq> activeEffect s}"
proof -
  let ?a = "activeEffect s"
  let ?U = "{f. \<exists>k es. (k, es) \<in> set depsMap \<and> f \<in> set es \<and> Some f \<noteq> ?a}"
  let ?r1 = "add_effects ?a (get_set depsMap key) []"
  let ?r2 = "if isArray s target \<and> type = ADD
             then add_effects ?a (get_set depsMap (Name ''length'')) ?r1 else ?r1"
  have g: "{f \<in> set (get_set depsMap k). Some f \<noteq> ?a} \<subseteq> ?U" for k
    using get_set_in by fastforce
  have 1: "set ?r1 = {f \<in> set (get_set depsMap key). Some f \<noteq> ?a}"
    by (simp add: set_add_effects)
  have 2: "set ?r1 \<subseteq> set ?r2" "set ?r2 \<subseteq> ?U"
    using g [of key] g [of "Name ''length''"] by (auto simp: set_add_effects)
  from assms obtain r where
    r: "(if isArray s target \<and> key = Name ''length''
         then length_effects ?a newVal depsMap ?r2 else Inr ?r2) = Inr r"
    and fs: "fs = (if type = ADD \<or> type = DELETE
                   then add_effects ?a (get_set depsMap ITERATE_KEY) r else r)"
    by (auto simp: effectsToRun_def Let_def split: sum.splits)
  have 3: "set ?r2 \<subseteq> set r \<and> set r \<subseteq> ?U"
  proof (cases "isArray s target \<and> key = Name ''length''")
    case True
    with r have "length_effects ?a newVal depsMap ?r2 = Inr r" by simp
    from length_effects_bounds [OF this] 2(2) show ?thesis by blast
  next
    case False
    with r 2(2) show ?thesis by auto
  qed
  have 4: "set r \<subseteq> set fs" "set fs \<subseteq> ?U"
    using 3 g [of ITERATE_KEY] by (auto simp: fs set_add_effects)
  from 1 2(1) 3 4(1) show "{f \<in> set (get_set depsMap key). Some f \<noteq> ?a} \<subseteq> set fs"
    by blast
  from 4(2) show "set fs \<subseteq> ?U" .
qed

lemma effectsToRun_SET:
  "\<not> (isArray s target \<and> key = Name ''length'')
     \<Longrightarrow> effectsToRun s depsMap target key SET newVal
           = Inr (add_effects (activeEffect s) (get_set depsMap key) [])"
  by (auto simp: effectsToRun_def Let_def)

lemma run_effects_Nil: "run_effects (Suc n) [] s = Some (Normal () s)"
  by (simp add: run_effects_Suc run_effects_body_def ret_def)

lemma run_effects_Nil_fun: "run_effects (Suc n) [] = (\<lambda>s. Some (Normal () s))"
  by (rule ext) (rule run_effects_Nil)

lemma trigger_own_write:
  assumes m: "map_of (effectsBuckets s) target = Some depsMap"
    and a: "activeEffect s = Some e"
    and o: "\<forall>k es. (k, es) \<in> set depsMap \<longrightarrow> set es \<subseteq> {e}"
  shows "\<exists>out. trigger (Suc (Suc n)) target key type newVal s = Some out
           \<and> state_of out = emit (Triggered target key type newVal) s"
proof (cases "effectsToRun s depsMap target key type newVal")
  case (Inl err)
  with m show ?thesis by (simp add: trigger_Suc trigger_body_def)
next
  case (Inr fs)
  from effectsToRun_bounds(2) [OF Inr] a o have "set fs \<subseteq> {}" by fastforce
  then have "fs = []" by simp
  with m Inr show ?thesis
    by (simp add: trigger_Suc [of "Suc n"] trigger_body_def run_effects_Nil)
qed

lemma trigger_single:
  assumes sub: "subscribers s target key = [e]"
    and a: "activeEffect s = None"
    and sch: "scheduler (effectFns s ! e) = None"
    and nl: "\<not> (isArray s target \<and> key = Name ''length'')"
  shows "trigger (Suc (Suc (Suc n))) target key SET newVal s
           = seq (effectFn (Suc n) e (emit (Triggered target key SET newVal) s)) (\<lambda>_ s1. ret () s1)"
proof -
  let ?s0 = "emit (Triggered target key SET newVal) s"
  from sub obtain depsMap where m: "map_of (effectsBuckets s) target = Some depsMap"
    by (cases "map_of (effectsBuckets s) target") (auto simp: subscribers_def)
  have "effectsToRun s depsMap target key SET newVal = Inr [e]"
    using sub a by (simp add: effectsToRun_SET [OF nl] get_set_subscribers [OF m] add_effects_def)
  with m have t: "trigger (Suc (Suc (Suc n))) target key SET newVal s = run_effects (Suc (Suc n)) [e] ?s0"
    by (simp add: trigger_Suc [of "Suc (Suc n)"] trigger_body_def)
  have d: "deliver (effectFn (Suc n)) (job (Suc n)) e ?s0
             = seq (effectFn (Suc n) e ?s0) (\<lambda>_ s1. ret () s1)"
    using sch by (simp add: deliver_def emit_def)
  have "run_effects (Suc (Suc n)) [e] ?s0
          = seq (seq (effectFn (Suc n) e ?s0) (\<lambda>_ s1. ret () s1)) (\<lambda>_ s1. ret () s1)"
    by (simp add: run_effects_Suc [of "Suc n"] run_effects_body_def d run_effects_Nil_fun ret_def)
  with t show ?thesis
    by (auto simp: seq_def ret_def split: option.splits outcome.splits)
qed

text \<open>
  C5. For an array target whose subscriptions are under string keys (as the traps of
  \<open>createReactive\<close> record them), a write of \<open>length\<close> with the number \<open>v\<close> makes
  \<open>trigger\<close> assemble exactly the effects, other than the active one, that are subscribed
  to \<open>length\<close> or to an index at or above \<open>v\<close>, and run them. For the reactive array
  \<open>[1, 2, 3]\<close> and an effect that read index 2: setting \<open>length\<close> to 1 runs the
  effect, and writing index 0 afterwards runs nothing.
\<close>

theorem length_write_runs_truncated_indices:
  "(\<forall>s depsMap target type v n.
      map_of (effectsBuckets s) target = Some depsMap \<and> isArray s target
      \<and> distinct (map fst depsMap) \<and> (\<forall>k \<in> fst ` set depsMap. \<not> is_symbol k)
      \<longrightarrow> (\<exists>fs. effectsToRun s depsMap target (Name ''length'') type (Num v) = Inr fs
                \<and> set fs = {f. Some f \<noteq> activeEffect s
                               \<and> (f \<in> set (subscribers s target (Name ''length''))
                                   \<or> (\<exists>i. v \<le> int i \<and> f \<in> set (subscribers s target (Index i))))}
                \<and> trigger (Suc n) target (Name ''length'') type (Num v) s
                    = run_effects n fs (emit (Triggered target (Name ''length'') type (Num v)) s)))
   \<and> heap array_state = [ArrayObj [Num 1, Num 2, Num 3] [], ProxyObj 0 (Reactive False False)]
   \<and> trace array_state = [Ran 0, Tracked 0 0 (Index 2)]
   \<and> subscribers array_state 0 (Index 2) = [0]
   \<and> map_option (trace \<circ> state_of) (assign 1 (Name ''length'') (Num 1) array_state)
       = Some (trace array_state @
               [Triggered 0 (Name ''length'') ADD (Num 1), Ran 0, Tracked 0 0 (Index 2)])
   \<and> heap (final (assign 1 (Name ''length'') (Num 1) array_state))
       = [ArrayObj [Num 1] [], ProxyObj 0 (Reactive False False)]
   \<and> map_option (trace \<circ> state_of)
        (assign 1 (Index 0) (Num 9) (final (assign 1 (Name ''length'') (Num 1) array_state)))
       = Some (trace (final (assign 1 (Name ''length'') (Num 1) array_state)) @
               [Triggered 0 (Index 0) SET (Num 9)])"
proof -
  have g: "\<forall>s depsMap target type v n.
      map_of (effectsBuckets s) target = Some depsMap \<and> isArray s target
      \<and> distinct (map fst depsMap) \<and> (\<forall>k \<in> fst ` set depsMap. \<not> is_symbol k)
      \<longrightarrow> (\<exists>fs. effectsToRun s depsMap target (Name ''length'') type (Num v) = Inr fs
                \<and> set fs = {f. Some f \<noteq> activeEffect s
                               \<and> (f \<in> set (subscribers s target (Name ''length''))
                                   \<or> (\<exists>i. v \<le> int i \<and> f \<in> set (subscribers s target (Index i))))}
                \<and> trigger (Suc n) target (Name ''length'') type (Num v) s
                    = run_effects n fs (emit (Triggered target (Name ''length'') type (Num v)) s))"
  proof (intro allI impI)
    fix s depsMap target type v n
    assume h: "map_of (effectsBuckets s) target = Some depsMap \<and> isArray s target
      \<and> distinct (map fst depsMap) \<and> (\<forall>k \<in> fst ` set depsMap. \<not> is_symbol k)"
    then obtain fs where fs: "effectsToRun s depsMap target (Name ''length'') type (Num v) = Inr fs"
      "set fs = {f. Some f \<noteq> activeEffect s
                    \<and> (f \<in> set (subscribers s target (Name ''length''))
                        \<or> (\<exists>i. v \<le> int i \<and> f \<in> set (subscribers s target (Index i))))}"
      using effectsToRun_length [of s target depsMap type v] by blast
    from h fs(1) have "trigger (Suc n) target (Name ''length'') type (Num v) s
                    = run_effects n fs (emit (Triggered target (Name ''length'') type (Num v)) s)"
      by (simp add: trigger_Suc trigger_body_def)
    with fs show "\<exists>fs. effectsToRun s depsMap target (Name ''length'') type (Num v) = Inr fs
                \<and> set fs = {f. Some f \<noteq> activeEffect s
                               \<and> (f \<in> set (subscribers s target (Name ''length''))
                                   \<or> (\<exists>i. v \<le> int i \<and> f \<in> set (subscribers s target (Index i))))}
                \<and> trigger (Suc n) target (Name ''length'') type (Num v) s
                    = run_effects n fs (emit (Triggered target (Name ''length'') type (Num v)) s)"
      by blast
  qed
  have 1: "heap array_state = [ArrayObj [Num 1, Num 2, Num 3] [], ProxyObj 0 (Reactive False False)]"
    by code_simp
  have 2: "trace array_state = [Ran 0, Tracked 0 0 (Index 2)]"
    by code_simp
  have 3: "subscribers array_state 0 (Index 2) = [0]"
    by code_simp
  have 4: "map_option (trace \<circ> state_of) (assign 1 (Name ''length'') (Num 1) array_state)
       = Some (trace array_state @
               [Triggered 0 (Name ''length'') ADD (Num 1), Ran 0, Tracked 0 0 (Index 2)])"
    by code_simp
  have 5: "heap (final (assign 1 (Name ''length'') (Num 1) array_state))
       = [ArrayObj [Num 1] [], ProxyObj 0 (Reactive False False)]"
    by code_simp
  have 6: "map_option (trace \<circ> state_of)
        (assign 1 (Index 0) (Num 9) (final (assign 1 (Name ''length'') (Num 1) array_state)))
       = Some (trace (final (assign 1 (Name ''length'') (Num 1) array_state)) @
               [Triggered 0 (Index 0) SET (Num 9)])"
    by code_simp
  show ?thesis by (intro conjI) (rule g 1 2 3 4 5 6)+
qed

theorem length_write_runs_truncated_indices_witness:
  "map_of (effectsBuckets array_state) 0 = Some [(Index 2, [0])] \<and> isArray array_state 0
   \<and> distinct (map fst [(Index 2, [0::nat])]) \<and> \<not> is_symbol (Index 2)
   \<and> (\<exists>fs. effectsToRun array_state [(Index 2, [0])] 0 (Name ''length'') ADD (Num 1) = Inr fs
         \<and> set fs = {f. Some f \<noteq> activeEffect array_state
                        \<and> (f \<in> set (subscribers array_state 0 (Name ''length''))
                            \<or> (\<exists>i. 1 \<le> int i \<and> f \<in> set (subscribers array_state 0 (Index i))))})"
proof -
  have a: "map_of (effectsBuckets array_state) 0 = Some [(Index 2, [0])]" "isArray array_state 0"
    by code_simp+
  have b: "distinct (map fst [(Index 2, [0::nat])])"
    "\<forall>k \<in> fst ` set [(Index 2, [0::nat])]. \<not> is_symbol k"
    by simp_all
  have c: "\<not> is_symbol (Index 2)"
    by simp
  from length_write_runs_truncated_indices [THEN conjunct1, rule_format,
      of array_state 0 "[(Index 2, [0])]" ADD 1 0] a b c
  show ?thesis by blast
qed

section \<open>The active effect after a run\<close>






section \<open>Computed values\<close>


























lemma run_effects_runs: "run_effects n fs s = Some r \<Longrightarrow> runs s (is_normal r) (state_of r)"
  by (rule goodD [OF all_good [THEN conjunct2, THEN conjunct2, THEN conjunct1, rule_format]])














section \<open>The \<open>set\<close> trap of a reactive proxy\<close>

lemma changed_iff:
  "(\<not> strict_eq old newVal \<and> (strict_eq old old \<or> strict_eq newVal newVal)) = (old \<noteq> newVal)"
  by (auto simp: strict_eq_def)

lemma trigger_emits:
  assumes "trigger n target key ty v s = Some r"
  shows "\<exists>new. trace (state_of r) = trace s @ Triggered target key ty v # new"
proof -
  obtain m where n: "n = Suc m"
    using assms by (cases n) (simp_all add: trigger_0)
  let ?s = "emit (Triggered target key ty v) s"
  have t: "trace ?s = trace s @ [Triggered target key ty v]"
    by (simp add: emit_def)
  from assms have "state_of r = ?s \<or> (\<exists>fs. run_effects m fs ?s = Some r)"
    unfolding n trigger_Suc trigger_body_def
    by (auto simp: ret_def split: option.splits sum.splits)
  then show ?thesis
  proof
    assume "state_of r = ?s"
    with t show ?thesis by simp
  next
    assume "\<exists>fs. run_effects m fs ?s = Some r"
    then obtain fs where "run_effects m fs ?s = Some r" ..
    from trace_extends [OF run_effects_runs [OF this]] t show ?thesis by auto
  qed
qed

lemma raw_of_receiver:
  "lookup_obj s r = Some (ProxyObj t (Reactive sh ro))
     \<Longrightarrow> get_any (Suc n) r RAW_KEY r s = Some (Ref t, s)"
  by simp

lemma set_trap:
  assumes p: "lookup_obj s p = Some (ProxyObj target (Reactive sh False))"
    and o: "get_any n target key target s = Some (oldValue0, s1)"
    and t: "trigger_type n target key s1 = Some (Normal ty s2)"
    and w: "set_any n target key newVal receiver s2 = Some (Normal res s3)"
    and r: "get_any n receiver RAW_KEY receiver s3 = Some (raw, s4)"
  shows "set_any (Suc n) p key newVal receiver s
           = (if Ref target = raw \<and> oldValue0 \<noteq> newVal
              then seq (trigger n target key ty newVal s4) (\<lambda>_ s5. ret res s5)
              else Some (Normal res s4))"
  using assms
  by (auto simp: set_any_Suc set_any_body_def seq_def lift_def ret_def changed_iff
        split: option.splits outcome.splits)

lemma set_trap_trace:
  assumes p: "lookup_obj s p = Some (ProxyObj target (Reactive sh False))"
    and o: "get_any n target key target s = Some (oldValue0, s1)"
    and t: "trigger_type n target key s1 = Some (Normal ty s2)"
    and w: "set_any n target key newVal receiver s2 = Some (Normal res s3)"
    and r: "get_any n receiver RAW_KEY receiver s3 = Some (raw, s4)"
    and x: "set_any (Suc n) p key newVal receiver s = Some out"
  shows "if Ref target = raw \<and> oldValue0 \<noteq> newVal
         then \<exists>new. trace (state_of out) = trace s4 @ Triggered target key ty newVal # new
         else out = Normal res s4"
proof (cases "Ref target = raw \<and> oldValue0 \<noteq> newVal")
  case True
  with x set_trap [OF p o t w r]
  have "seq (trigger n target key ty newVal s4) (\<lambda>_ s5. ret res s5) = Some out"
    by simp
  from seq_Some [OF this]
  have "\<exists>q. trigger n target key ty newVal s4 = Some q \<and> state_of out = state_of q"
    by (auto simp: ret_def)
  then obtain q where q: "trigger n target key ty newVal s4 = Some q" "state_of out = state_of q"
    by blast
  from trigger_emits [OF q(1)] q(2) True show ?thesis by simp
next
  case False
  with x set_trap [OF p o t w r] show ?thesis by auto
qed


text \<open>
  C6. The \<open>set\<close> trap of a mutable reactive proxy reads the old value, finds the type,
  writes with \<open>Reflect.set\<close>, reads the raw object of the receiver (for a reactive proxy,
  its target) and then calls \<open>trigger\<close> exactly when its target is that raw object and
  the new value is not the old one, where the test of the source makes \<open>NaN\<close> the same
  as \<open>NaN\<close>: in that case the history continues with the notification of the target and
  key, otherwise the trap returns the result of the write and the state after it. For
  \<open>proxyChild.bar++\<close>, where \<open>bar\<close> is inherited from \<open>proxyParent\<close>: the
  write reaches the trap of the parent with the child as receiver, which notifies
  nothing, and the trap of the child notifies once, so the effect runs once. Writing
  the same value again notifies nothing; writing \<open>NaN\<close> notifies once, and writing
  \<open>NaN\<close> again notifies nothing.
\<close>

theorem set_notifies_own_changed_writes:
  "(\<forall>n r t sh ro s. lookup_obj s r = Some (ProxyObj t (Reactive sh ro))
      \<longrightarrow> get_any (Suc n) r RAW_KEY r s = Some (Ref t, s))
   \<and> (\<forall>old newVal. (\<not> strict_eq old newVal \<and> (strict_eq old old \<or> strict_eq newVal newVal))
                      = (old \<noteq> newVal))
   \<and> (\<forall>n p target sh key newVal receiver s oldValue0 s1 ty s2 res s3 raw s4.
        lookup_obj s p = Some (ProxyObj target (Reactive sh False))
        \<and> get_any n target key target s = Some (oldValue0, s1)
        \<and> trigger_type n target key s1 = Some (Normal ty s2)
        \<and> set_any n target key newVal receiver s2 = Some (Normal res s3)
        \<and> get_any n receiver RAW_KEY receiver s3 = Some (raw, s4)
        \<longrightarrow> set_any (Suc n) p key newVal receiver s
              = (if Ref target = raw \<and> oldValue0 \<noteq> newVal
                 then seq (trigger n target key ty newVal s4) (\<lambda>_ s5. ret res s5)
                 else Some (Normal res s4)))
   \<and> (\<forall>n p target sh key newVal receiver s oldValue0 s1 ty s2 res s3 raw s4 out.
        lookup_obj s p = Some (ProxyObj target (Reactive sh False))
        \<and> get_any n target key target s = Some (oldValue0, s1)
        \<and> trigger_type n target key s1 = Some (Normal ty s2)
        \<and> set_any n target key newVal receiver s2 = Some (Normal res s3)
        \<and> get_any n receiver RAW_KEY receiver s3 = Some (raw, s4)
        \<and> set_any (Suc n) p key newVal receiver s = Some out
        \<longrightarrow> (if Ref target = raw \<and> oldValue0 \<noteq> newVal
             then \<exists>new. trace (state_of out) = trace s4 @ Triggered target key ty newVal # new
             else out = Normal res s4))
   \<and> heap proto_state
       = [PlainObj [] (Some 3), PlainObj [(Name ''bar'', Num 1)] None,
          ProxyObj 0 (Reactive False False), ProxyObj 1 (Reactive False False)]
   \<and> trace proto_state = [Ran 0, Tracked 0 0 (Name ''bar''), Tracked 0 1 (Name ''bar'')]
   \<and> subscribers proto_state 0 (Name ''bar'') = [0]
   \<and> subscribers proto_state 1 (Name ''bar'') = [0]
   \<and> map_option (trace \<circ> state_of) (increment 2 (Name ''bar'') proto_state)
       = Some (trace proto_state
               @ [Triggered 0 (Name ''bar'') ADD (Num 2), Ran 0, Tracked 0 0 (Name ''bar'')])
   \<and> console proto_written = [[Num 1], [Num 2]]
   \<and> map_option (trace \<circ> state_of) (assign 2 (Name ''bar'') (Num 2) proto_written)
       = Some (trace proto_written)
   \<and> map_option (trace \<circ> state_of) (assign 2 (Name ''bar'') NaN proto_written)
       = Some (trace proto_written
               @ [Triggered 0 (Name ''bar'') SET NaN, Ran 0, Tracked 0 0 (Name ''bar'')])
   \<and> map_option (trace \<circ> state_of) (assign 2 (Name ''bar'') NaN proto_nan)
       = Some (trace proto_nan)"
proof -
  have a: "\<forall>n r t sh ro s. lookup_obj s r = Some (ProxyObj t (Reactive sh ro))
      \<longrightarrow> get_any (Suc n) r RAW_KEY r s = Some (Ref t, s)"
    by simp
  have b: "\<forall>old newVal. (\<not> strict_eq old newVal \<and> (strict_eq old old \<or> strict_eq newVal newVal))
                      = (old \<noteq> newVal)"
    by (simp add: changed_iff)
  have c: "\<forall>n p target sh key newVal receiver s oldValue0 s1 ty s2 res s3 raw s4.
        lookup_obj s p = Some (ProxyObj target (Reactive sh False))
        \<and> get_any n target key target s = Some (oldValue0, s1)
        \<and> trigger_type n target key s1 = Some (Normal ty s2)
        \<and> set_any n target key newVal receiver s2 = Some (Normal res s3)
        \<and> get_any n receiver RAW_KEY receiver s3 = Some (raw, s4)
        \<longrightarrow> set_any (Suc n) p key newVal receiver s
              = (if Ref target = raw \<and> oldValue0 \<noteq> newVal
                 then seq (trigger n target key ty newVal s4) (\<lambda>_ s5. ret res s5)
                 else Some (Normal res s4))"
    using set_trap by blast
  have d: "\<forall>n p target sh key newVal receiver s oldValue0 s1 ty s2 res s3 raw s4 out.
        lookup_obj s p = Some (ProxyObj target (Reactive sh False))
        \<and> get_any n target key target s = Some (oldValue0, s1)
        \<and> trigger_type n target key s1 = Some (Normal ty s2)
        \<and> set_any n target key newVal receiver s2 = Some (Normal res s3)
        \<and> get_any n receiver RAW_KEY receiver s3 = Some (raw, s4)
        \<and> set_any (Suc n) p key newVal receiver s = Some out
        \<longrightarrow> (if Ref target = raw \<and> oldValue0 \<noteq> newVal
             then \<exists>new. trace (state_of out) = trace s4 @ Triggered target key ty newVal # new
             else out = Normal res s4)"
    using set_trap_trace by blast
  have 1: "heap proto_state
       = [PlainObj [] (Some 3), PlainObj [(Name ''bar'', Num 1)] None,
          ProxyObj 0 (Reactive False False), ProxyObj 1 (Reactive False False)]"
    by code_simp
  have 2: "trace proto_state = [Ran 0, Tracked 0 0 (Name ''bar''), Tracked 0 1 (Name ''bar'')]"
    by code_simp
  have 3: "subscribers proto_state 0 (Name ''bar'') = [0]"
    by code_simp
  have 4: "subscribers proto_state 1 (Name ''bar'') = [0]"
    by code_simp
  have 5: "map_option (trace \<circ> state_of) (increment 2 (Name ''bar'') proto_state)
       = Some (trace proto_state
               @ [Triggered 0 (Name ''bar'') ADD (Num 2), Ran 0, Tracked 0 0 (Name ''bar'')])"
    by code_simp
  have 6: "console proto_written = [[Num 1], [Num 2]]"
    by code_simp
  have 7: "map_option (trace \<circ> state_of) (assign 2 (Name ''bar'') (Num 2) proto_written)
       = Some (trace proto_written)"
    by code_simp
  have 8: "map_option (trace \<circ> state_of) (assign 2 (Name ''bar'') NaN proto_written)
       = Some (trace proto_written
               @ [Triggered 0 (Name ''bar'') SET NaN, Ran 0, Tracked 0 0 (Name ''bar'')])"
    by code_simp
  have 9: "map_option (trace \<circ> state_of) (assign 2 (Name ''bar'') NaN proto_nan)
       = Some (trace proto_nan)"
    by code_simp
  show ?thesis by (intro conjI) (rule a b c d 1 2 3 4 5 6 7 8 9)+
qed

theorem set_notifies_own_changed_writes_witness:
  "lookup_obj proto_state 3 = Some (ProxyObj 1 (Reactive False False))
   \<and> get_any 18 1 (Name ''bar'') 1 proto_state = Some (Num 1, proto_state)
   \<and> trigger_type 18 1 (Name ''bar'') proto_state = Some (Normal SET proto_state)
   \<and> set_any 18 1 (Name ''bar'') (Num 2) 2 proto_state
       = Some (Normal True (final (set_any 18 1 (Name ''bar'') (Num 2) 2 proto_state)))
   \<and> get_any 18 2 RAW_KEY 2 (final (set_any 18 1 (Name ''bar'') (Num 2) 2 proto_state))
       = Some (Ref 0, final (set_any 18 1 (Name ''bar'') (Num 2) 2 proto_state))
   \<and> set_any 19 3 (Name ''bar'') (Num 2) 2 proto_state
       = Some (Normal True (final (set_any 18 1 (Name ''bar'') (Num 2) 2 proto_state)))
   \<and> lookup_obj proto_state 2 = Some (ProxyObj 0 (Reactive False False))
   \<and> get_any 19 0 (Name ''bar'') 0 proto_state = Some (Num 1, proto_state)
   \<and> trigger_type 19 0 (Name ''bar'') proto_state = Some (Normal ADD proto_state)
   \<and> set_any 19 0 (Name ''bar'') (Num 2) 2 proto_state
       = Some (Normal True (final (set_any 18 1 (Name ''bar'') (Num 2) 2 proto_state)))
   \<and> set_any 20 2 (Name ''bar'') (Num 2) 2 proto_state
       = seq (trigger 19 0 (Name ''bar'') ADD (Num 2)
                (final (set_any 18 1 (Name ''bar'') (Num 2) 2 proto_state)))
           (\<lambda>_ s5. ret True s5)"
proof -
  let ?s3 = "final (set_any 18 1 (Name ''bar'') (Num 2) 2 proto_state)"
  have p1: "lookup_obj proto_state 3 = Some (ProxyObj 1 (Reactive False False))"
    by code_simp
  have p2: "get_any 18 1 (Name ''bar'') 1 proto_state = Some (Num 1, proto_state)"
    by code_simp
  have p3: "trigger_type 18 1 (Name ''bar'') proto_state = Some (Normal SET proto_state)"
    by code_simp
  have p4: "set_any 18 1 (Name ''bar'') (Num 2) 2 proto_state = Some (Normal True ?s3)"
    by code_simp
  have p5: "get_any 18 2 RAW_KEY 2 ?s3 = Some (Ref 0, ?s3)"
    by code_simp
  have c1: "lookup_obj proto_state 2 = Some (ProxyObj 0 (Reactive False False))"
    by code_simp
  have c2: "get_any 19 0 (Name ''bar'') 0 proto_state = Some (Num 1, proto_state)"
    by code_simp
  have c3: "trigger_type 19 0 (Name ''bar'') proto_state = Some (Normal ADD proto_state)"
    by code_simp
  have c5: "get_any 19 2 RAW_KEY 2 ?s3 = Some (Ref 0, ?s3)"
    by code_simp
  note eq = set_notifies_own_changed_writes [THEN conjunct2, THEN conjunct2, THEN conjunct1, rule_format]
  from eq [OF conjI, OF p1 conjI, OF p2 conjI, OF p3 conjI, OF p4 p5]
  have p6: "set_any 19 3 (Name ''bar'') (Num 2) 2 proto_state = Some (Normal True ?s3)"
    by simp
  have c4: "set_any 19 0 (Name ''bar'') (Num 2) 2 proto_state = Some (Normal True ?s3)"
    by code_simp
  from eq [OF conjI, OF c1 conjI, OF c2 conjI, OF c3 conjI, OF c4 c5]
  have c6: "set_any 20 2 (Name ''bar'') (Num 2) 2 proto_state
       = seq (trigger 19 0 (Name ''bar'') ADD (Num 2) ?s3) (\<lambda>_ s5. ret True s5)"
    by simp
  from p1 p2 p3 p4 p5 p6 c1 c2 c3 c4 c6 show ?thesis by (intro conjI)
qed

section \<open>Registration of a watcher\<close>

lemma watch_unfold:
  "watch n source callback immediate s =
     (if immediate then job n (length (watchers s)) (watch_setup source callback s)
      else seq (effectFn n (length (effectFns s)) (watch_setup source callback s))
             (\<lambda>v s2. ret () (set_oldValue (length (watchers s)) v s2)))"
  by (simp add: watch_def watch_setup_def Let_def)

lemma watch_setup_fields:
  "trace (watch_setup source callback s) = trace s"
  "length (watchers (watch_setup source callback s)) = Suc (length (watchers s))"
  "oldValue (watchers (watch_setup source callback s) ! length (watchers s)) = Undefined"
  "w_effectFn (watchers (watch_setup source callback s) ! length (watchers s)) = length (effectFns s)"
  "cb (watchers (watch_setup source callback s) ! length (watchers s)) = callback"
  by (simp_all add: watch_setup_def new_effect_def)

lemma calls_of_append: "calls_of w (xs @ ys) = calls_of w xs @ calls_of w ys"
  by (simp add: calls_of_def)

lemma job_calls:
  assumes "job n w s = Some (Normal u s')"
  shows "\<exists>m v s1 new.
           n = Suc m
           \<and> effectFn m (w_effectFn (watchers s ! w)) (emit (Job w) s) = Some (Normal v s1)
           \<and> trace s' = trace s @ Job w # new
           \<and> (Job w \<notin> set new \<longrightarrow>
                calls_of w new = [Called w v (oldValue (watchers s ! w))]
                \<and> oldValue (watchers s' ! w) = v)"
proof -
  obtain m where n: "n = Suc m"
    using assms by (cases n) (simp_all add: job_0)
  have w: "w < length (watchers s)"
    using assms unfolding n job_Suc job_body_def by (simp split: if_splits)
  let ?e = "w_effectFn (watchers s ! w)"
  from assms w have b:
    "seq (effectFn m ?e (emit (Job w) s)) (\<lambda>v s1.
       seq (case w_cleanup (watchers s1 ! w) of None \<Rightarrow> ret () (set_newValue w v s1)
            | Some f \<Rightarrow> exec m (snd f) (fst f) (set_newValue w v s1)) (\<lambda>_ s2.
       seq (exec m ([newValue (watchers s2 ! w), oldValue (watchers s2 ! w)], Some w)
              (cb (watchers s2 ! w))
              (emit (Called w (newValue (watchers s2 ! w)) (oldValue (watchers s2 ! w))) s2))
         (\<lambda>_ s3. ret () (set_oldValue w (newValue (watchers s3 ! w)) s3))))
     = Some (Normal u s')"
    unfolding n job_Suc job_body_def by simp
  from seq_Some [OF b] obtain v s1 where
    A: "effectFn m ?e (emit (Job w) s) = Some (Normal v s1)" and
    b2: "seq (case w_cleanup (watchers s1 ! w) of None \<Rightarrow> ret () (set_newValue w v s1)
            | Some f \<Rightarrow> exec m (snd f) (fst f) (set_newValue w v s1)) (\<lambda>_ s2.
       seq (exec m ([newValue (watchers s2 ! w), oldValue (watchers s2 ! w)], Some w)
              (cb (watchers s2 ! w))
              (emit (Called w (newValue (watchers s2 ! w)) (oldValue (watchers s2 ! w))) s2))
         (\<lambda>_ s3. ret () (set_oldValue w (newValue (watchers s3 ! w)) s3)))
     = Some (Normal u s')"
    by auto
  from seq_Some [OF b2] obtain x s2 where
    B: "(case w_cleanup (watchers s1 ! w) of None \<Rightarrow> ret () (set_newValue w v s1)
            | Some f \<Rightarrow> exec m (snd f) (fst f) (set_newValue w v s1)) = Some (Normal x s2)" and
    b3: "seq (exec m ([newValue (watchers s2 ! w), oldValue (watchers s2 ! w)], Some w)
              (cb (watchers s2 ! w))
              (emit (Called w (newValue (watchers s2 ! w)) (oldValue (watchers s2 ! w))) s2))
         (\<lambda>_ s3. ret () (set_oldValue w (newValue (watchers s3 ! w)) s3))
     = Some (Normal u s')"
    by auto
  let ?nv = "newValue (watchers s2 ! w)" and ?ov = "oldValue (watchers s2 ! w)"
  from seq_Some [OF b3] obtain y s3 where
    C: "exec m ([?nv, ?ov], Some w) (cb (watchers s2 ! w)) (emit (Called w ?nv ?ov) s2)
          = Some (Normal y s3)" and
    s': "s' = set_oldValue w (newValue (watchers s3 ! w)) s3"
    by (auto simp: ret_def)
  have qA: "quiet w (emit (Job w) s) s1"
    using runs_quiet [OF effectFn_runs [OF A]] by simp
  have "runs (set_newValue w v s1) True s2"
  proof (cases "w_cleanup (watchers s1 ! w)")
    case None
    with B show ?thesis by (simp add: ret_def runs_refl)
  next
    case (Some f)
    with B have "exec m (snd f) (fst f) (set_newValue w v s1) = Some (Normal x s2)" by simp
    from exec_runs [OF this] show ?thesis by simp
  qed
  then have qB: "quiet w (set_newValue w v s1) s2"
    by (rule runs_quiet)
  have qC: "quiet w (emit (Called w ?nv ?ov) s2) s3"
    using runs_quiet [OF exec_runs [OF C]] by simp
  from quietD [OF qA] w obtain nA where
    lA: "length (watchers s1) = length (watchers s)" and
    tA: "trace s1 = trace s @ Job w # nA" and
    cA: "Job w \<notin> set nA \<Longrightarrow> calls_of w nA = []" and
    oA: "Job w \<notin> set nA \<Longrightarrow> oldValue (watchers s1 ! w) = oldValue (watchers s ! w)"
    by (auto simp: emit_def)
  from quietD [OF qB] w lA obtain nB where
    lB: "length (watchers s2) = length (watchers s)" and
    tB: "trace s2 = trace s1 @ nB" and
    cB: "Job w \<notin> set nB \<Longrightarrow> calls_of w nB = []" and
    oB: "Job w \<notin> set nB \<Longrightarrow> ?ov = oldValue (watchers s1 ! w) \<and> ?nv = v"
    by (auto simp: set_newValue_def)
  from quietD [OF qC] w lB obtain nC where
    lC: "length (watchers s3) = length (watchers s)" and
    tC: "trace s3 = trace s2 @ Called w ?nv ?ov # nC" and
    cC: "Job w \<notin> set nC \<Longrightarrow> calls_of w nC = []" and
    oC: "Job w \<notin> set nC \<Longrightarrow> newValue (watchers s3 ! w) = ?nv"
    by (auto simp: emit_def)
  let ?new = "nA @ nB @ Called w ?nv ?ov # nC"
  have t: "trace s' = trace s @ Job w # ?new"
    by (simp add: s' set_oldValue_def tC tB tA)
  have "calls_of w ?new = [Called w v (oldValue (watchers s ! w))] \<and> oldValue (watchers s' ! w) = v"
    if j: "Job w \<notin> set ?new"
  proof -
    from j have jA: "Job w \<notin> set nA" and jB: "Job w \<notin> set nB" and jC: "Job w \<notin> set nC"
      by auto
    have "calls_of w ?new = [Called w ?nv ?ov]"
      by (simp add: calls_of_append cA [OF jA] cB [OF jB]) (simp add: calls_of_def cC [OF jC, unfolded calls_of_def])
    moreover have "?nv = v" "?ov = oldValue (watchers s ! w)"
      using oB [OF jB] oA [OF jA] by simp_all
    moreover have "oldValue (watchers s' ! w) = v"
      using oC [OF jC] oB [OF jB] w lC by (simp add: s' set_oldValue_def)
    ultimately show ?thesis by simp
  qed
  with t A n show ?thesis by blast
qed


lemma watch_lazy:
  assumes "watch n source callback False s = Some (Normal u s')"
  shows "\<exists>v s2 new.
           effectFn n (length (effectFns s)) (watch_setup source callback s) = Some (Normal v s2)
           \<and> s' = set_oldValue (length (watchers s)) v s2
           \<and> trace s' = trace s @ Ran (length (effectFns s)) # new
           \<and> oldValue (watchers s' ! length (watchers s)) = v
           \<and> (Job (length (watchers s)) \<notin> set new \<longrightarrow> calls_of (length (watchers s)) new = [])"
proof -
  let ?w = "length (watchers s)" and ?e = "length (effectFns s)"
  let ?s1 = "watch_setup source callback s"
  from assms have "seq (effectFn n ?e ?s1) (\<lambda>v s2. ret () (set_oldValue ?w v s2)) = Some (Normal u s')"
    by (simp add: watch_unfold)
  from seq_Some [OF this] obtain v s2 where
    A: "effectFn n ?e ?s1 = Some (Normal v s2)" and s': "s' = set_oldValue ?w v s2"
    by (auto simp: ret_def)
  from runs_quiet [OF effectFn_runs [OF A], of ?w] have q: "quiet ?w ?s1 s2"
    by simp
  from quietD [OF q] obtain nq where
    l: "length (watchers s2) = Suc ?w" and
    tq: "trace s2 = trace s @ nq" and
    cq: "Job ?w \<notin> set nq \<Longrightarrow> calls_of ?w nq = []"
    by (auto simp: watch_setup_fields)
  from effectFn_SomeD [OF A] obtain m s0 where
    c: "call_fn m (fn (effectFns ?s1 ! ?e)) (env (effectFns ?s1 ! ?e))
          (push_effect ?e (cleanup ?e (emit (Ran ?e) ?s1))) = Some (Normal v s0)" and
    p: "s2 = pop_stack s0"
    by auto
  from trace_extends [OF call_fn_runs [OF c]] p obtain new where
    t2: "trace s2 = trace s @ Ran ?e # new"
    by (auto simp: push_effect_def cleanup_def emit_def Let_def pop_stack_def watch_setup_fields)
  from tq t2 have nq: "nq = Ran ?e # new" by simp
  have "calls_of ?w new = []" if "Job ?w \<notin> set new"
    using cq that by (simp add: nq calls_of_def)
  moreover have "trace s' = trace s @ Ran ?e # new"
    by (simp add: s' set_oldValue_def t2)
  moreover have "oldValue (watchers s' ! ?w) = v"
    using l by (simp add: s' set_oldValue_def)
  ultimately show ?thesis using A s' by blast
qed

lemma watch_immediate:
  assumes "watch n source callback True s = Some (Normal u s')"
  shows "\<exists>m v s1 new.
           n = Suc m
           \<and> effectFn m (length (effectFns s))
                (emit (Job (length (watchers s))) (watch_setup source callback s))
               = Some (Normal v s1)
           \<and> trace s' = trace s @ Job (length (watchers s)) # new
           \<and> (Job (length (watchers s)) \<notin> set new \<longrightarrow>
                calls_of (length (watchers s)) new = [Called (length (watchers s)) v Undefined]
                \<and> oldValue (watchers s' ! length (watchers s)) = v)"
proof -
  from assms have "job n (length (watchers s)) (watch_setup source callback s) = Some (Normal u s')"
    by (simp add: watch_unfold)
  from job_calls [OF this] show ?thesis
    by (simp add: watch_setup_fields)
qed

text \<open>
  C10, as the code has it. The job of a watcher is the scheduler of its effect, so a
  callback that writes what the getter has read starts the job again while the first
  call of the callback is in progress. For
  \<open>watch(() => proxyData.count, (n) => { if (n === 1) proxyData.count = 2 }, {immediate: true})\<close>
  the callback is called twice during registration, with 1 and with 2, both times with
  the old value \<open>undefined\<close>, where the claim has exactly one call.
\<close>

theorem watch_callback_twice_counterexample:
  "map_option (trace \<circ> state_of) watch_twice
     = Some [Job 0, Ran 0, Tracked 0 0 (Name ''count''), Called 0 (Num 1) Undefined,
             Triggered 0 (Name ''count'') SET (Num 2),
             Job 0, Ran 0, Tracked 0 0 (Name ''count''), Called 0 (Num 2) Undefined]
   \<and> calls_of 0 (trace (final watch_twice)) = [Called 0 (Num 1) Undefined, Called 0 (Num 2) Undefined]
   \<and> length (calls_of 0 (trace (final watch_twice))) = 2"
  by code_simp

text \<open>
  C10, amended. When \<open>watch\<close> with \<open>immediate\<close> returns, it has started the job
  of the new watcher, which ran the effect function of the getter; if the job was not
  started again during the registration, the callback was called exactly once, with the
  value of that run and the old value \<open>undefined\<close>, and that value is the old value
  afterwards. When \<open>watch\<close> without \<open>immediate\<close> returns, it has run the effect
  function once itself and stored its result as the old value, and if the job was not
  started during the registration the callback was not called. For the watcher of the
  listing the callback logs the proxy and \<open>undefined\<close> at registration; without
  \<open>immediate\<close> nothing is logged at registration, the old value is 1, and the write
  \<open>proxyData.count = 4\<close> calls the callback with 4 and 1.
\<close>

theorem watch_immediate_calls_once:
  "(\<forall>n source callback s u s'.
      watch n source callback True s = Some (Normal u s')
      \<longrightarrow> (\<exists>m v s1 new.
             n = Suc m
             \<and> effectFn m (length (effectFns s))
                  (emit (Job (length (watchers s))) (watch_setup source callback s))
                 = Some (Normal v s1)
             \<and> trace s' = trace s @ Job (length (watchers s)) # new
             \<and> (Job (length (watchers s)) \<notin> set new \<longrightarrow>
                  calls_of (length (watchers s)) new = [Called (length (watchers s)) v Undefined]
                  \<and> oldValue (watchers s' ! length (watchers s)) = v)))
   \<and> (\<forall>n source callback s u s'.
        watch n source callback False s = Some (Normal u s')
        \<longrightarrow> (\<exists>v s2 new.
               effectFn n (length (effectFns s)) (watch_setup source callback s) = Some (Normal v s2)
               \<and> s' = set_oldValue (length (watchers s)) v s2
               \<and> trace s' = trace s @ Ran (length (effectFns s)) # new
               \<and> oldValue (watchers s' ! length (watchers s)) = v
               \<and> (Job (length (watchers s)) \<notin> set new \<longrightarrow> calls_of (length (watchers s)) new = [])))
   \<and> map_option (trace \<circ> state_of) watch_now
       = Some [Job 0, Ran 0, Tracked 0 0 (Name ''count''), Tracked 0 0 (Name ''foo''),
               Tracked 0 0 (Name ''bar''), Called 0 (Ref 1) Undefined]
   \<and> console (final watch_now) = [[Str ''watched data.bar changed'', Ref 1, Undefined]]
   \<and> map_option (trace \<circ> state_of) watch_later = Some [Ran 0, Tracked 0 0 (Name ''count'')]
   \<and> console (final watch_later) = []
   \<and> oldValue (watchers (final watch_later) ! 0) = Num 1
   \<and> map_option (trace \<circ> state_of) (assign 1 (Name ''count'') (Num 4) (final watch_later))
       = Some [Ran 0, Tracked 0 0 (Name ''count''), Triggered 0 (Name ''count'') SET (Num 4),
               Job 0, Ran 0, Tracked 0 0 (Name ''count''), Called 0 (Num 4) (Num 1)]"
proof -
  have a: "\<forall>n source callback s u s'.
      watch n source callback True s = Some (Normal u s')
      \<longrightarrow> (\<exists>m v s1 new.
             n = Suc m
             \<and> effectFn m (length (effectFns s))
                  (emit (Job (length (watchers s))) (watch_setup source callback s))
                 = Some (Normal v s1)
             \<and> trace s' = trace s @ Job (length (watchers s)) # new
             \<and> (Job (length (watchers s)) \<notin> set new \<longrightarrow>
                  calls_of (length (watchers s)) new = [Called (length (watchers s)) v Undefined]
                  \<and> oldValue (watchers s' ! length (watchers s)) = v))"
    using watch_immediate by blast
  have b: "\<forall>n source callback s u s'.
        watch n source callback False s = Some (Normal u s')
        \<longrightarrow> (\<exists>v s2 new.
               effectFn n (length (effectFns s)) (watch_setup source callback s) = Some (Normal v s2)
               \<and> s' = set_oldValue (length (watchers s)) v s2
               \<and> trace s' = trace s @ Ran (length (effectFns s)) # new
               \<and> oldValue (watchers s' ! length (watchers s)) = v
               \<and> (Job (length (watchers s)) \<notin> set new \<longrightarrow> calls_of (length (watchers s)) new = []))"
    using watch_lazy by blast
  have 1: "map_option (trace \<circ> state_of) watch_now
       = Some [Job 0, Ran 0, Tracked 0 0 (Name ''count''), Tracked 0 0 (Name ''foo''),
               Tracked 0 0 (Name ''bar''), Called 0 (Ref 1) Undefined]"
    by code_simp
  have 2: "console (final watch_now) = [[Str ''watched data.bar changed'', Ref 1, Undefined]]"
    by code_simp
  have 3: "map_option (trace \<circ> state_of) watch_later = Some [Ran 0, Tracked 0 0 (Name ''count'')]"
    by code_simp
  have 4: "console (final watch_later) = []"
    by code_simp
  have 5: "oldValue (watchers (final watch_later) ! 0) = Num 1"
    by code_simp
  have 6: "map_option (trace \<circ> state_of) (assign 1 (Name ''count'') (Num 4) (final watch_later))
       = Some [Ran 0, Tracked 0 0 (Name ''count''), Triggered 0 (Name ''count'') SET (Num 4),
               Job 0, Ran 0, Tracked 0 0 (Name ''count''), Called 0 (Num 4) (Num 1)]"
    by code_simp
  show ?thesis by (intro conjI) (rule a b 1 2 3 4 5 6)+
qed

theorem watch_immediate_calls_once_witness:
  "watch 30 (SourceObj (Ref 1)) log_cb True (init data_heap) = Some (Normal () (final watch_now))
   \<and> trace (final watch_now)
       = Job 0 # [Ran 0, Tracked 0 0 (Name ''count''), Tracked 0 0 (Name ''foo''),
                  Tracked 0 0 (Name ''bar''), Called 0 (Ref 1) Undefined]
   \<and> Job 0 \<notin> set [Ran 0, Tracked 0 0 (Name ''count''), Tracked 0 0 (Name ''foo''),
                    Tracked 0 0 (Name ''bar''), Called 0 (Ref 1) Undefined]
   \<and> (\<exists>v. calls_of 0 [Ran 0, Tracked 0 0 (Name ''count''), Tracked 0 0 (Name ''foo''),
                        Tracked 0 0 (Name ''bar''), Called 0 (Ref 1) Undefined]
            = [Called 0 v Undefined]
          \<and> oldValue (watchers (final watch_now) ! 0) = v)"
proof -
  let ?rest = "[Ran 0, Tracked 0 0 (Name ''count''), Tracked 0 0 (Name ''foo''),
                Tracked 0 0 (Name ''bar''), Called 0 (Ref 1) Undefined]"
  have 1: "watch 30 (SourceObj (Ref 1)) log_cb True (init data_heap) = Some (Normal () (final watch_now))"
    by code_simp
  have 2: "trace (final watch_now) = Job 0 # ?rest"
    by code_simp
  have 3: "trace (init data_heap) = []" "length (watchers (init data_heap)) = 0"
    by code_simp+
  have 4: "Job 0 \<notin> set ?rest"
    by simp
  from watch_immediate_calls_once [THEN conjunct1, rule_format, OF 1]
  obtain v new where
    t: "trace (final watch_now) = trace (init data_heap) @ Job (length (watchers (init data_heap))) # new"
    and c: "Job (length (watchers (init data_heap))) \<notin> set new \<longrightarrow>
              calls_of (length (watchers (init data_heap))) new
                = [Called (length (watchers (init data_heap))) v Undefined]
              \<and> oldValue (watchers (final watch_now) ! length (watchers (init data_heap))) = v"
    by blast
  from t 2 3 have n: "new = ?rest" by simp
  from c 4 have "calls_of 0 ?rest = [Called 0 v Undefined] \<and> oldValue (watchers (final watch_now) ! 0) = v"
    unfolding n 3 by blast
  with 1 2 4 show ?thesis by blast
qed

section \<open>Results do not depend on the bound\<close>

text \<open>
  The bound on the depth of the calls only cuts a run off: a function that returns or
  throws under a bound does the same, with the same state, under every larger bound. So
  what the examples return under their bounds is what the program returns.
\<close>

lemma below_refl: "below m m"
  by (simp add: below_def)

lemma below_None: "below None m"
  by (simp add: below_def)

lemma below_trans: "below a b \<Longrightarrow> below b c \<Longrightarrow> below a c"
  by (simp add: below_def)

lemma belowD: "below m m' \<Longrightarrow> m = Some r \<Longrightarrow> m' = Some r"
  by (simp add: below_def)

lemma below_seq:
  "below m m' \<Longrightarrow> (\<And>v s. below (f v s) (f' v s)) \<Longrightarrow> below (seq m f) (seq m' f')"
  by (auto simp: below_def seq_def split: option.splits outcome.splits)

lemma below_lift: "below m m' \<Longrightarrow> below (lift m) (lift m')"
  by (auto simp: below_def lift_def)

lemma below_map_option: "below m m' \<Longrightarrow> below (map_option f m) (map_option f m')"
  by (auto simp: below_def)

lemma below_bind:
  "below m m' \<Longrightarrow> (\<And>x. below (f x) (f' x))
     \<Longrightarrow> below (case m of None \<Rightarrow> None | Some x \<Rightarrow> f x) (case m' of None \<Rightarrow> None | Some x \<Rightarrow> f' x)"
  by (auto simp: below_def split: option.splits)

lemma get_any_Suc_below:
  "(\<forall>r key receiver s. below (get_any n r key receiver s) (get_any (Suc n) r key receiver s))
   \<and> (\<forall>target key s. below (track n target key s) (track (Suc n) target key s))"
proof (induction n)
  case 0
  show ?case by (simp add: below_None)
next
  case (Suc n)
  then have G: "\<And>r key receiver s. below (get_any n r key receiver s) (get_any (Suc n) r key receiver s)"
    and T: "\<And>target key s. below (track n target key s) (track (Suc n) target key s)"
    by blast+
  have g: "below (get_any (Suc n) r key receiver s) (get_any (Suc (Suc n)) r key receiver s)"
    for r key receiver s
  proof (cases "lookup_obj s r")
    case None
    then show ?thesis by (simp add: below_None)
  next
    case (Some h)
    show ?thesis
    proof (cases h)
      case (PlainObj props proto)
      with Some show ?thesis
        apply (subst get_any.simps(2) [of "Suc n"])
        apply (subst get_any.simps(2) [of n r key receiver s])
        apply (cases "map_of props key"; cases proto)
        apply (simp_all del: get_any.simps track.simps add: below_refl G)
        done
    next
      case (ArrayObj elems props)
      with Some show ?thesis by (simp add: below_refl)
    next
      case (ProxyObj target hd)
      show ?thesis
      proof (cases hd)
        case Basic
        with Some ProxyObj show ?thesis
          apply (subst get_any.simps(2) [of "Suc n"])
          apply (subst get_any.simps(2) [of n r key receiver s])
          apply (simp del: get_any.simps track.simps)
          apply (intro below_bind T G)
          done
      next
        case (Reactive sh ro)
        with Some ProxyObj show ?thesis
          apply (subst get_any.simps(2) [of "Suc n"])
          apply (subst get_any.simps(2) [of n r key receiver s])
          apply (simp del: get_any.simps track.simps add: below_refl)
          apply (intro conjI impI below_bind T G below_refl)
          done
      qed
    qed
  qed
  have t: "below (track (Suc n) target key s) (track (Suc (Suc n)) target key s)" for target key s
    apply (subst track.simps(2) [of "Suc n"])
    apply (subst track.simps(2) [of n target key s])
    apply (cases "activeEffect s")
    apply (simp_all del: get_any.simps track.simps add: below_refl below_map_option G)
    done
  from g t show ?case by blast
qed


lemmas get_any_below = get_any_Suc_below [THEN conjunct1, rule_format]
lemmas track_below = get_any_Suc_below [THEN conjunct2, rule_format]

lemma below_same:
  "(m = None \<Longrightarrow> below a a') \<Longrightarrow> (\<And>x. m = Some x \<Longrightarrow> below (f x) (f' x))
     \<Longrightarrow> below (case m of None \<Rightarrow> a | Some x \<Rightarrow> f x) (case m of None \<Rightarrow> a' | Some x \<Rightarrow> f' x)"
  by (cases m) simp_all

lemma below_if:
  "(c \<Longrightarrow> below a a') \<Longrightarrow> (\<not> c \<Longrightarrow> below b b')
     \<Longrightarrow> below (if c then a else b) (if c then a' else b')"
  by simp

lemma below_prod:
  "(\<And>a b. below (f a b) (f' a b)) \<Longrightarrow> below (case x of (a, b) \<Rightarrow> f a b) (case x of (a, b) \<Rightarrow> f' a b)"
  by (cases x) simp

lemma below_outcome:
  "(\<And>v s. below (f v s) (f' v s)) \<Longrightarrow> (\<And>e s. below (g e s) (g' e s))
     \<Longrightarrow> below (case x of Normal v s \<Rightarrow> f v s | Threw e s \<Rightarrow> g e s)
               (case x of Normal v s \<Rightarrow> f' v s | Threw e s \<Rightarrow> g' e s)"
  by (cases x) simp_all

lemma trigger_type_below: "below (trigger_type n target key s) (trigger_type (Suc n) target key s)"
  unfolding trigger_type_def
  by (intro below_if below_seq below_lift get_any_below below_refl)

lemma search_from_below: "below (search_from n eq this x ks s) (search_from (Suc n) eq this x ks s)"
proof (induction ks arbitrary: s)
  case Nil
  show ?case by (simp add: below_refl)
next
  case (Cons k ks)
  show ?case
    by (simp del: get_any.simps) (intro below_bind get_any_below below_prod below_if below_refl Cons)
qed

lemma originMethod_below: "below (originMethod n method this x s) (originMethod (Suc n) method this x s)"
  unfolding originMethod_def
  by (intro below_bind get_any_below below_prod below_if below_map_option search_from_below)

lemma instrumented_below: "below (instrumented n method this x s) (instrumented (Suc n) method this x s)"
  unfolding instrumented_def
  apply (intro below_bind originMethod_below below_prod below_if get_any_below below_refl)
  apply (simp split: val.split add: below_refl below_map_option originMethod_below)
  done

lemma call_method_below: "below (call_method n f this x s) (call_method (Suc n) f this x s)"
  unfolding call_method_def
  by (simp split: val.split add: below_refl below_map_option originMethod_below instrumented_below)


lemma eval_below: "below (eval n args e s) (eval (Suc n) args e s)"
proof (induction e arbitrary: s)
  case (Lit v)
  show ?case by (simp add: below_refl)
next
  case (Arg i)
  show ?case by (simp add: below_refl)
next
  case (Get e key)
  show ?case
    apply (simp del: get_any.simps)
    apply (intro below_bind Get below_outcome below_refl)
    apply (simp split: val.split add: below_refl below_map_option get_any_below del: get_any.simps)
    done
next
  case (Plus a b)
  show ?case
    by simp (intro below_bind Plus below_outcome below_refl)
next
  case (StrictEq a b)
  show ?case
    by simp (intro below_bind StrictEq below_outcome below_refl)
next
  case (Cond c a b)
  show ?case
    by simp (intro below_bind Cond below_outcome below_refl below_if)
next
  case (Call obj m a)
  show ?case
    apply (simp del: get_any.simps)
    apply (intro below_bind Call below_outcome below_refl)
    apply (simp split: val.split add: below_refl del: get_any.simps)
    apply (intro allI impI below_bind get_any_below below_prod Call below_outcome below_refl
             call_method_below)
    done
qed

lemma eval_list_below: "below (eval_list n args es s) (eval_list (Suc n) args es s)"
proof (induction es arbitrary: s)
  case Nil
  show ?case by (simp add: below_refl)
next
  case (Cons e es)
  show ?case
    by simp (intro below_bind eval_below below_outcome below_refl Cons)
qed

lemma enum_keys_below: "below (enum_keys n r s) (enum_keys (Suc n) r s)"
proof (induction n arbitrary: r s)
  case 0
  show ?case by (simp add: below_None)
next
  case (Suc n)
  show ?case
  proof (cases "lookup_obj s r")
    case None
    then show ?thesis by (simp add: below_None)
  next
    case (Some h)
    show ?thesis
    proof (cases h)
      case (PlainObj props proto)
      with Some show ?thesis
        apply (subst enum_keys.simps(2) [of "Suc n"])
        apply (subst enum_keys.simps(2) [of n r s])
        apply (cases proto)
        apply (simp_all del: enum_keys.simps add: below_refl Let_def)
        apply (intro below_bind Suc below_refl)
        done
    next
      case (ArrayObj elems props)
      with Some show ?thesis by (simp add: below_refl)
    next
      case (ProxyObj target hd)
      with Some show ?thesis
        apply (subst enum_keys.simps(2) [of "Suc n"])
        apply (subst enum_keys.simps(2) [of n r s])
        apply (cases hd)
        apply (simp_all del: enum_keys.simps track.simps add: Suc)
        apply (intro conjI impI below_bind track_below Suc)
        done
    qed
  qed
qed

lemma traverse_Suc_below:
  "(\<forall>source seen s. below (traverse n source seen s) (traverse (Suc n) source seen s))
   \<and> (\<forall>r ks seen s. below (traverse_keys n r ks seen s) (traverse_keys (Suc n) r ks seen s))"
proof (induction n)
  case 0
  show ?case by (simp add: below_None)
next
  case (Suc n)
  then have V: "\<And>source seen s. below (traverse n source seen s) (traverse (Suc n) source seen s)"
    and K: "\<And>r ks seen s. below (traverse_keys n r ks seen s) (traverse_keys (Suc n) r ks seen s)"
    by blast+
  have v: "below (traverse (Suc n) source seen s) (traverse (Suc (Suc n)) source seen s)"
    for source seen s
    apply (subst traverse.simps(2) [of "Suc n"])
    apply (subst traverse.simps(2) [of n source seen s])
    apply (simp split: val.split add: below_refl
             del: traverse.simps traverse_keys.simps enum_keys.simps)
    apply (intro allI impI below_bind enum_keys_below below_prod K below_refl)
    done
  have k: "below (traverse_keys (Suc n) r ks seen s) (traverse_keys (Suc (Suc n)) r ks seen s)"
    for r ks seen s
  proof (cases ks)
    case Nil
    then show ?thesis by (simp add: below_refl)
  next
    case (Cons k ks')
    show ?thesis
      unfolding Cons
      apply (subst traverse_keys.simps(3) [of "Suc n"])
      apply (subst traverse_keys.simps(3) [of n r k ks' seen s])
      apply (intro below_bind get_any_below below_prod V K)
      done
  qed
  from v k show ?case by blast
qed

lemmas traverse_below = traverse_Suc_below [THEN conjunct1, rule_format]


lemma set_any_body_below:
  assumes S: "\<And>r key v rc s. below (sa r key v rc s) (sa' r key v rc s)"
    and T: "\<And>target key ty v s. below (tr target key ty v s) (tr' target key ty v s)"
  shows "below (set_any_body n sa tr r key v rc s) (set_any_body (Suc n) sa' tr' r key v rc s)"
proof (cases "lookup_obj s r")
  case None
  then show ?thesis by (simp add: set_any_body_def below_None)
next
  case (Some h)
  show ?thesis
  proof (cases h)
    case (PlainObj props proto)
    with Some show ?thesis
      by (cases proto) (simp_all add: set_any_body_def below_refl S)
  next
    case (ArrayObj elems props)
    with Some show ?thesis by (simp add: set_any_body_def below_refl)
  next
    case (ProxyObj target hd)
    show ?thesis
    proof (cases hd)
      case Basic
      with Some ProxyObj show ?thesis
        by (simp add: set_any_body_def) (intro below_seq S T below_refl)
    next
      case (Reactive sh ro)
      with Some ProxyObj show ?thesis
        apply (simp add: set_any_body_def below_refl del: get_any.simps)
        apply (intro impI below_seq below_lift get_any_below trigger_type_below S below_if T
                 below_refl)
        done
    qed
  qed
qed

lemma trigger_body_below:
  assumes "\<And>fs s. below (re fs s) (re' fs s)"
  shows "below (trigger_body re target key ty v s) (trigger_body re' target key ty v s)"
  unfolding trigger_body_def
  by (simp split: option.split sum.split add: below_refl assms)

lemma deliver_below:
  assumes "\<And>e s. below (ef e s) (ef' e s)" and "\<And>w s. below (jb w s) (jb' w s)"
  shows "below (deliver ef jb f s) (deliver ef' jb' f s)"
  unfolding deliver_def
  by (simp split: option.split sched.split add: below_refl assms below_seq)

lemma run_effects_body_below:
  assumes "\<And>fs s. below (re fs s) (re' fs s)"
    and "\<And>e s. below (ef e s) (ef' e s)" and "\<And>w s. below (jb w s) (jb' w s)"
  shows "below (run_effects_body re ef jb fs s) (run_effects_body re' ef' jb' fs s)"
  unfolding run_effects_body_def
  by (simp split: list.split add: below_refl assms below_seq deliver_below)

lemma effectFn_body_below:
  assumes "\<And>f en s. below (cf f en s) (cf' f en s)"
  shows "below (effectFn_body cf e s) (effectFn_body cf' e s)"
  unfolding effectFn_body_def
  by (simp add: below_refl assms below_seq)

lemma call_fn_body_below:
  assumes "\<And>en cs s. below (ex en cs s) (ex' en cs s)"
  shows "below (call_fn_body n ex f en s) (call_fn_body (Suc n) ex' f en s)"
  unfolding call_fn_body_def
  by (simp split: func.split add: below_refl assms below_seq eval_below below_map_option traverse_below
        del: traverse.simps)

lemma exec_body_below:
  assumes "\<And>en cs s. below (ex en cs s) (ex' en cs s)"
    and "\<And>en c s. below (e1 en c s) (e1' en c s)"
  shows "below (exec_body ex e1 en cs s) (exec_body ex' e1' en cs s)"
  unfolding exec_body_def
  by (simp split: list.split add: below_refl assms below_seq)

lemma exec1_body_below:
  assumes "\<And>en cs s. below (ex en cs s) (ex' en cs s)"
    and "\<And>r key v rc s. below (sa r key v rc s) (sa' r key v rc s)"
    and "\<And>f en sch lz s. below (eff f en sch lz s) (eff' f en sch lz s)"
    and "\<And>c s. below (vg c s) (vg' c s)"
  shows "below (exec1_body n ex sa eff vg en c s) (exec1_body (Suc n) ex' sa' eff' vg' en c s)"
proof (cases c)
  case (Assign obj key e)
  show ?thesis
    unfolding Assign exec1_body_def
    apply simp
    apply (intro below_seq eval_below)
    apply (simp split: val.split add: below_refl below_seq assms)
    done
next
  case (Try body handler)
  show ?thesis
    unfolding Try exec1_body_def
    by simp (intro below_bind assms below_outcome below_refl)
qed (simp_all add: exec1_body_def below_refl assms below_seq eval_below eval_list_below
       split: option.split)

lemma effect_body_below:
  assumes "\<And>e s. below (ef e s) (ef' e s)"
  shows "below (effect_body ef f en sch lz s) (effect_body ef' f en sch lz s)"
  unfolding effect_body_def
  by (simp add: below_refl assms below_seq)

lemma value_get_body_below:
  assumes "\<And>e s. below (ef e s) (ef' e s)"
  shows "below (value_get_body ef c s) (value_get_body ef' c s)"
  unfolding value_get_body_def
  by (simp add: below_refl assms below_seq)

lemma job_body_below:
  assumes "\<And>e s. below (ef e s) (ef' e s)"
    and "\<And>en cs s. below (ex en cs s) (ex' en cs s)"
  shows "below (job_body ef ex w s) (job_body ef' ex' w s)"
  unfolding job_body_def
  apply (simp add: below_refl)
  apply (intro impI below_seq assms below_refl)
  apply (simp split: option.split add: below_refl assms)
  done


lemma all_below:
  "(\<forall>r key v rc s. below (set_any n r key v rc s) (set_any (Suc n) r key v rc s))
   \<and> (\<forall>target key ty v s. below (trigger n target key ty v s) (trigger (Suc n) target key ty v s))
   \<and> (\<forall>fs s. below (run_effects n fs s) (run_effects (Suc n) fs s))
   \<and> (\<forall>e s. below (effectFn n e s) (effectFn (Suc n) e s))
   \<and> (\<forall>f en s. below (call_fn n f en s) (call_fn (Suc n) f en s))
   \<and> (\<forall>en cs s. below (exec n en cs s) (exec (Suc n) en cs s))
   \<and> (\<forall>en c s. below (exec1 n en c s) (exec1 (Suc n) en c s))
   \<and> (\<forall>f en sch lz s. below (effect n f en sch lz s) (effect (Suc n) f en sch lz s))
   \<and> (\<forall>c s. below (value_get n c s) (value_get (Suc n) c s))
   \<and> (\<forall>w s. below (job n w s) (job (Suc n) w s))"
proof (induction n)
  case 0
  show ?case
    by (simp add: set_any_0 trigger_0 run_effects_0 effectFn_0 call_fn_0 exec_0 exec1_0
        effect_0 value_get_0 job_0 below_None)
next
  case (Suc n)
  then have
    1: "\<And>r key v rc s. below (set_any n r key v rc s) (set_any (Suc n) r key v rc s)" and
    2: "\<And>target key ty v s. below (trigger n target key ty v s) (trigger (Suc n) target key ty v s)" and
    3: "\<And>fs s. below (run_effects n fs s) (run_effects (Suc n) fs s)" and
    4: "\<And>e s. below (effectFn n e s) (effectFn (Suc n) e s)" and
    5: "\<And>f en s. below (call_fn n f en s) (call_fn (Suc n) f en s)" and
    6: "\<And>en cs s. below (exec n en cs s) (exec (Suc n) en cs s)" and
    7: "\<And>en c s. below (exec1 n en c s) (exec1 (Suc n) en c s)" and
    8: "\<And>f en sch lz s. below (effect n f en sch lz s) (effect (Suc n) f en sch lz s)" and
    9: "\<And>c s. below (value_get n c s) (value_get (Suc n) c s)" and
    10: "\<And>w s. below (job n w s) (job (Suc n) w s)"
    by auto
  note ih = 1 2 3 4 5 6 7 8 9 10
  note ih' = ih [unfolded set_any_Suc trigger_Suc run_effects_Suc effectFn_Suc call_fn_Suc
                   exec_Suc exec1_Suc effect_Suc value_get_Suc job_Suc]
  show ?case
    unfolding set_any_Suc trigger_Suc run_effects_Suc effectFn_Suc call_fn_Suc exec_Suc exec1_Suc
      effect_Suc value_get_Suc job_Suc
    by (intro conjI allI set_any_body_below trigger_body_below run_effects_body_below
          effectFn_body_below call_fn_body_below exec_body_below exec1_body_below
          effect_body_below value_get_body_below job_body_below ih')
qed

lemmas set_any_below = all_below [THEN conjunct1, rule_format]
lemmas trigger_below = all_below [THEN conjunct2, THEN conjunct1, rule_format]
lemmas effectFn_below = all_below [THEN conjunct2, THEN conjunct2, THEN conjunct2, THEN conjunct1, rule_format]
lemmas exec_below = all_below [THEN conjunct2, THEN conjunct2, THEN conjunct2, THEN conjunct2,
  THEN conjunct2, THEN conjunct1, rule_format]
lemmas effect_below = all_below [THEN conjunct2, THEN conjunct2, THEN conjunct2, THEN conjunct2,
  THEN conjunct2, THEN conjunct2, THEN conjunct2, THEN conjunct1, rule_format]
lemmas value_get_below = all_below [THEN conjunct2, THEN conjunct2, THEN conjunct2, THEN conjunct2,
  THEN conjunct2, THEN conjunct2, THEN conjunct2, THEN conjunct2, THEN conjunct1, rule_format]
lemmas job_below = all_below [THEN conjunct2, THEN conjunct2, THEN conjunct2, THEN conjunct2,
  THEN conjunct2, THEN conjunct2, THEN conjunct2, THEN conjunct2, THEN conjunct2, rule_format]

lemma below_le:
  assumes "\<And>n. below (f n) (f (Suc n))" and "n \<le> m"
  shows "below (f n) (f m)"
  using assms(2)
proof (induction m)
  case 0
  then show ?case by (simp add: below_refl)
next
  case (Suc m)
  show ?case
  proof (cases "n = Suc m")
    case True
    then show ?thesis by (simp add: below_refl)
  next
    case False
    with Suc have "below (f n) (f m)" by simp
    from below_trans [OF this assms(1)] show ?thesis .
  qed
qed

lemma get_any_bound:
  assumes "get_any n r key receiver s = Some x" and "n \<le> m"
  shows "get_any m r key receiver s = Some x"
  by (rule belowD [OF below_le [of "\<lambda>n. get_any n r key receiver s", OF get_any_below assms(2)] assms(1)])

lemma eval_bound:
  assumes "eval n args e s = Some x" and "n \<le> m"
  shows "eval m args e s = Some x"
  by (rule belowD [OF below_le [of "\<lambda>n. eval n args e s", OF eval_below assms(2)] assms(1)])

lemma set_any_bound:
  assumes "set_any n r key v rc s = Some x" and "n \<le> m"
  shows "set_any m r key v rc s = Some x"
  by (rule belowD [OF below_le [of "\<lambda>n. set_any n r key v rc s", OF set_any_below assms(2)] assms(1)])

lemma trigger_bound:
  assumes "trigger n target key ty v s = Some x" and "n \<le> m"
  shows "trigger m target key ty v s = Some x"
  by (rule belowD [OF below_le [of "\<lambda>n. trigger n target key ty v s", OF trigger_below assms(2)] assms(1)])

lemma effectFn_bound:
  assumes "effectFn n e s = Some x" and "n \<le> m"
  shows "effectFn m e s = Some x"
  by (rule belowD [OF below_le [of "\<lambda>n. effectFn n e s", OF effectFn_below assms(2)] assms(1)])

lemma exec_bound:
  assumes "exec n en cs s = Some x" and "n \<le> m"
  shows "exec m en cs s = Some x"
  by (rule belowD [OF below_le [of "\<lambda>n. exec n en cs s", OF exec_below assms(2)] assms(1)])

lemma effect_bound:
  assumes "effect n f en sch lz s = Some x" and "n \<le> m"
  shows "effect m f en sch lz s = Some x"
  by (rule belowD [OF below_le [of "\<lambda>n. effect n f en sch lz s", OF effect_below assms(2)] assms(1)])

lemma value_get_bound:
  assumes "value_get n c s = Some x" and "n \<le> m"
  shows "value_get m c s = Some x"
  by (rule belowD [OF below_le [of "\<lambda>n. value_get n c s", OF value_get_below assms(2)] assms(1)])

lemma job_bound:
  assumes "job n w s = Some x" and "n \<le> m"
  shows "job m w s = Some x"
  by (rule belowD [OF below_le [of "\<lambda>n. job n w s", OF job_below assms(2)] assms(1)])

lemma watch_bound:
  assumes "watch n source callback immediate s = Some x" and "n \<le> m"
  shows "watch m source callback immediate s = Some x"
proof (cases immediate)
  case True
  with assms(1) have "job n (length (watchers s)) (watch_setup source callback s) = Some x"
    by (simp add: watch_unfold)
  from job_bound [OF this assms(2)] True show ?thesis
    by (simp add: watch_unfold)
next
  case False
  have "below (effectFn n (length (effectFns s)) (watch_setup source callback s))
          (effectFn m (length (effectFns s)) (watch_setup source callback s))"
    by (rule below_le [of "\<lambda>n. effectFn n (length (effectFns s)) (watch_setup source callback s)",
          OF effectFn_below assms(2)])
  from belowD [OF below_seq [OF this below_refl]] assms(1) False show ?thesis
    by (simp add: watch_unfold)
qed

subsection \<open>The examples under larger bounds\<close>

text \<open>
  The runs that differ from the specification give the same result under every bound
  from the one they are evaluated with: the searches on the reactive array, the effect
  that throws, the effect that is started again inside its own run, the watcher whose
  callback writes what it watches, the effect that catches the exception of a nested
  one, the two effects that count to four, and the computed value whose dependency is
  written while its getter runs.
\<close>

lemma same_result:
  assumes "f n \<noteq> None" and "\<And>x. f n = Some x \<Longrightarrow> f m = Some x"
  shows "f m = f n"
  using assms by (cases "f n") auto

lemma search_every_bound:
  assumes "10 \<le> m"
  shows "eval m [] (Call (Lit (Ref 2)) ''includes'' (Lit (Ref 0))) includes_state
           = eval 10 [] (Call (Lit (Ref 2)) ''includes'' (Lit (Ref 0))) includes_state"
    and "eval m [] (Call (Lit (Ref 2)) ''indexOf'' (Lit (Ref 0))) includes_state
           = eval 10 [] (Call (Lit (Ref 2)) ''indexOf'' (Lit (Ref 0))) includes_state"
    and "eval m [] (Call (Lit (Ref 2)) ''lastIndexOf'' (Lit (Ref 0))) includes_state
           = eval 10 [] (Call (Lit (Ref 2)) ''lastIndexOf'' (Lit (Ref 0))) includes_state"
proof -
  have 1: "eval 10 [] (Call (Lit (Ref 2)) ''includes'' (Lit (Ref 0))) includes_state \<noteq> None"
    by code_simp
  have 2: "eval 10 [] (Call (Lit (Ref 2)) ''indexOf'' (Lit (Ref 0))) includes_state \<noteq> None"
    by code_simp
  have 3: "eval 10 [] (Call (Lit (Ref 2)) ''lastIndexOf'' (Lit (Ref 0))) includes_state \<noteq> None"
    by code_simp
  show "eval m [] (Call (Lit (Ref 2)) ''includes'' (Lit (Ref 0))) includes_state
           = eval 10 [] (Call (Lit (Ref 2)) ''includes'' (Lit (Ref 0))) includes_state"
    using 1 eval_bound [OF _ assms]
    by (rule same_result [where f = "\<lambda>k. eval k [] (Call (Lit (Ref 2)) ''includes'' (Lit (Ref 0))) includes_state"])
  show "eval m [] (Call (Lit (Ref 2)) ''indexOf'' (Lit (Ref 0))) includes_state
           = eval 10 [] (Call (Lit (Ref 2)) ''indexOf'' (Lit (Ref 0))) includes_state"
    using 2 eval_bound [OF _ assms]
    by (rule same_result [where f = "\<lambda>k. eval k [] (Call (Lit (Ref 2)) ''indexOf'' (Lit (Ref 0))) includes_state"])
  show "eval m [] (Call (Lit (Ref 2)) ''lastIndexOf'' (Lit (Ref 0))) includes_state
           = eval 10 [] (Call (Lit (Ref 2)) ''lastIndexOf'' (Lit (Ref 0))) includes_state"
    using 3 eval_bound [OF _ assms]
    by (rule same_result [where f = "\<lambda>k. eval k [] (Call (Lit (Ref 2)) ''lastIndexOf'' (Lit (Ref 0))) includes_state"])
qed

lemma throwing_every_bound:
  assumes "5 \<le> m"
  shows "effectFn m 0 throwing_state = effectFn 5 0 throwing_state"
proof -
  have "effectFn 5 0 throwing_state \<noteq> None"
    by code_simp
  then show ?thesis
    using effectFn_bound [OF _ assms]
    by (rule same_result [where f = "\<lambda>k. effectFn k 0 throwing_state"])
qed

lemma reentrant_every_bound:
  assumes "30 \<le> m"
  shows "effect m (Fn reentrant_f (Lit Undefined)) ([], None) None False (init reentrant_heap)
           = effect 30 (Fn reentrant_f (Lit Undefined)) ([], None) None False (init reentrant_heap)"
    and "effect m (Fn reentrant_e (Lit Undefined)) ([], None) None False reentrant_state = reentrant_run"
proof -
  have 1: "effect 30 (Fn reentrant_f (Lit Undefined)) ([], None) None False (init reentrant_heap) \<noteq> None"
    by code_simp
  have 2: "effect 30 (Fn reentrant_e (Lit Undefined)) ([], None) None False reentrant_state \<noteq> None"
    by code_simp
  show "effect m (Fn reentrant_f (Lit Undefined)) ([], None) None False (init reentrant_heap)
           = effect 30 (Fn reentrant_f (Lit Undefined)) ([], None) None False (init reentrant_heap)"
    using 1 effect_bound [OF _ assms]
    by (rule same_result [where f = "\<lambda>k. effect k (Fn reentrant_f (Lit Undefined)) ([], None) None False (init reentrant_heap)"])
  show "effect m (Fn reentrant_e (Lit Undefined)) ([], None) None False reentrant_state = reentrant_run"
    unfolding reentrant_run_def
    using 2 effect_bound [OF _ assms]
    by (rule same_result [where f = "\<lambda>k. effect k (Fn reentrant_e (Lit Undefined)) ([], None) None False reentrant_state"])
qed

lemma watch_twice_every_bound:
  assumes "30 \<le> m"
  shows "watch m (SourceFn count_getter) writing_cb True (init data_heap) = watch_twice"
proof -
  have "watch 30 (SourceFn count_getter) writing_cb True (init data_heap) \<noteq> None"
    by code_simp
  then show ?thesis
    unfolding watch_twice_def
    using watch_bound [OF _ assms]
    by (rule same_result [where f = "\<lambda>k. watch k (SourceFn count_getter) writing_cb True (init data_heap)"])
qed

lemma catching_every_bound:
  assumes "20 \<le> m"
  shows "effect m (Fn catching_fn (Lit Undefined)) ([], None) None False (init nested_heap) = catching_run"
proof -
  have "effect 20 (Fn catching_fn (Lit Undefined)) ([], None) None False (init nested_heap) \<noteq> None"
    by code_simp
  then show ?thesis
    unfolding catching_run_def
    using effect_bound [OF _ assms]
    by (rule same_result [where f = "\<lambda>k. effect k (Fn catching_fn (Lit Undefined)) ([], None) None False (init nested_heap)"])
qed

lemma capped_every_bound:
  assumes "60 \<le> m"
  shows "exec m ([], None) [Assign (Lit (Ref 1)) (Name ''count'') (Lit (Num 0))] capped_state = capped_write"
proof -
  have "exec 60 ([], None) [Assign (Lit (Ref 1)) (Name ''count'') (Lit (Num 0))] capped_state \<noteq> None"
    by code_simp
  then show ?thesis
    unfolding capped_write_def
    using exec_bound [OF _ assms]
    by (rule same_result [where f = "\<lambda>k. exec k ([], None) [Assign (Lit (Ref 1)) (Name ''count'') (Lit (Num 0))] capped_state"])
qed

lemma lost_every_bound:
  assumes "20 \<le> m"
  shows "value_get m 0 lost_state = lost_read"
proof -
  have "value_get 20 0 lost_state \<noteq> None"
    by code_simp
  then show ?thesis
    unfolding lost_read_def
    using value_get_bound [OF _ assms]
    by (rule same_result [where f = "\<lambda>k. value_get k 0 lost_state"])
qed

section \<open>Effects that write what they read\<close>

text \<open>
  Two effects \<open>() => { proxyData.count++ }\<close> on the same object. A call of one of them
  unsubscribes it, reads \<open>count\<close> (which subscribes it again), writes \<open>count\<close>, and
  the \<open>trigger\<close> of the write calls the other one, which is subscribed and not active,
  in a state of the same kind. Seven nested calls lead from the call of one effect
  function to the call of the other, so no bound is enough for a call to return.
\<close>

lemma takes_turns_start: "takes_turns 1 (new_effect (Fn inc_fn (Lit Undefined)) ([], None) None False counter_state)"
  by code_simp

lemma counter_heapD:
  "counter_heap h \<Longrightarrow> \<exists>props. h = [PlainObj props None, ProxyObj 0 Basic]"
  by (cases h; cases "tl h"; cases "tl (tl h)") (auto simp: counter_heap_def split: hobj.splits)

lemma counter_heapI:
  "counter_heap [PlainObj props None, ProxyObj 0 Basic]"
  by (auto simp: counter_heap_def)

lemma increment_step:
  assumes IH: "\<And>s'. takes_turns (1 - e) s' \<Longrightarrow> effectFn h (1 - e) s' = None" and p: "takes_turns e s"
  shows "effectFn (Suc (Suc (Suc (Suc (Suc (Suc (Suc h))))))) e s = None"
proof -
  let ?k = "Name ''count''"
  let ?rhs = "Plus (Get (Lit (Ref 1)) ?k) (Lit (Num 1))"
  from p have e2: "e < 2"
    by (simp add: takes_turns_def)
  then have ne: "e \<noteq> 1 - e" "1 - e < 2" "1 - (1 - e) = e"
    by arith+
  from p obtain props where hp: "heap s = [PlainObj props None, ProxyObj 0 Basic]"
    using counter_heapD by (auto simp: takes_turns_def)
  from p have fs: "length (effectFns s) = 2" "is_increment (effectFns s ! 0)" "is_increment (effectFns s ! 1)"
    "shouldTrack s" "deps (effectFns s ! (1 - e)) = [(0, ?k)]"
    by (auto simp: takes_turns_def)
  have inc: "is_increment (effectFns s ! i)" if "i < 2" for i
    using that fs(2,3) by (cases i) (auto simp: less_Suc_eq numeral_2_eq_2)
  define s0 where "s0 = push_effect e (cleanup e (emit (Ran e) s))"
  have b0: "effectsBuckets s0 = [(0, [(?k, [1 - e])])]"
    using p ne by (auto simp: s0_def takes_turns_def push_effect_def cleanup_def emit_def deps_of_def bucket_delete_def)
  have f0: "effectFns s0 = (effectFns s)[e := (effectFns s ! e)\<lparr>deps := []\<rparr>]"
    "heap s0 = heap s" "activeEffect s0 = Some e" "shouldTrack s0"
    using fs(4) by (simp_all add: s0_def push_effect_def cleanup_def emit_def)
  define s1 where "s1 = track_add e 0 ?k s0"
  have b1: "effectsBuckets s1 = [(0, [(?k, [1 - e, e])])]"
    using ne by (simp add: s1_def track_add_def Let_def emit_def b0)
  have f1: "effectFns s1 = (effectFns s)[e := (effectFns s ! e)\<lparr>deps := [(0, ?k)]\<rparr>]"
    "heap s1 = heap s" "activeEffect s1 = Some e" "shouldTrack s1"
    using e2 fs(1) by (simp_all add: s1_def track_add_def Let_def emit_def f0)
  define x where "x = (case map_of props ?k of Some v \<Rightarrow> v | None \<Rightarrow> Undefined)"
  define v where "v = js_plus x (Num 1)"
  have l0: "lookup_obj s0 (Suc 0) = Some (ProxyObj 0 Basic)"
    "lookup_obj s1 0 = Some (PlainObj props None)"
    "lookup_obj s1 (Suc 0) = Some (ProxyObj 0 Basic)"
    by (simp_all add: lookup_obj_def f0 f1 hp)
  have tk: "track (Suc (Suc h)) 0 ?k s0 = Some s1"
    by (simp add: f0 s1_def)
  have g0: "get_any (Suc (Suc h)) 0 ?k 0 s1 = Some (x, s1)"
    by (simp add: l0 x_def split: option.splits)
  have g1: "get_any (Suc (Suc (Suc h))) (Suc 0) ?k (Suc 0) s0 = Some (x, s1)"
    by (subst get_any.simps(2)) (simp add: l0 tk g0 del: get_any.simps track.simps)
  have ev: "eval (Suc (Suc (Suc h))) [] ?rhs s0 = Some (Normal v s1)"
    by (simp add: g1 v_def del: get_any.simps track.simps)
  define s2 where "s2 = s1\<lparr>heap := [PlainObj (AList.update ?k v props) None, ProxyObj 0 Basic]\<rparr>"
  have d: "define_own 0 ?k v s1 = Normal True s2"
    by (simp add: define_own_def raw_of_def f1 hp s2_def)
  have st: "set_any (Suc (Suc h)) 0 ?k v 0 s1 = Some (Normal True s2)"
    by (simp add: set_any_Suc set_any_body_def l0 d)
  define s3 where "s3 = emit (Triggered 0 ?k SET v) s2"
  have p3: "takes_turns (1 - e) s3"
    using e2 ne fs inc [of e] inc [of "1 - e"]
    apply (simp add: takes_turns_def s3_def emit_def s2_def f1 b1 counter_heapI ne)
    apply (cases "e = 0")
     apply (auto simp: is_increment_def nth_list_update less_Suc_eq numeral_2_eq_2)
    done
  have sch: "scheduler (effectFns s3 ! (1 - e)) = None"
    using p3 ne(2) by (cases "1 - e") (auto simp: takes_turns_def is_increment_def less_Suc_eq numeral_2_eq_2)
  have re: "run_effects (Suc h) [1 - e] s3 = None"
    using sch IH [OF p3] by (simp add: run_effects_Suc run_effects_body_def deliver_def seq_def)
  have na: "\<not> isArray s2 0"
    by (simp add: isArray_def raw_of_def s2_def)
  have etr: "effectsToRun s2 [(?k, [1 - e, e])] 0 ?k SET v = Inr [1 - e]"
    using ne by (simp add: effectsToRun_def Let_def na add_effects_def get_set_def s2_def f1)
  have tr: "trigger (Suc (Suc h)) 0 ?k SET v s2 = None"
    using re etr by (simp add: trigger_Suc trigger_body_def s2_def b1 s3_def)
  have sp: "set_any (Suc (Suc (Suc h))) (Suc 0) ?k v (Suc 0) s1 = None"
    using st tr by (simp add: set_any_Suc [of "Suc (Suc h)"] set_any_body_def l0 seq_def)
  have e1: "exec1 (Suc (Suc (Suc (Suc h)))) ([], None) (Assign (Lit (Ref 1)) ?k ?rhs) s0 = None"
    using ev sp by (simp del: eval.simps add: exec1_Suc exec1_body_def seq_def eval.simps(1))
  have ex: "exec (Suc (Suc (Suc (Suc (Suc h))))) ([], None) inc_fn s0 = None"
    using e1 by (simp add: exec_Suc exec_body_def inc_fn_def seq_def)
  have cf: "call_fn (Suc (Suc (Suc (Suc (Suc (Suc h)))))) (Fn inc_fn (Lit Undefined)) ([], None) s0 = None"
    using ex by (simp add: call_fn_Suc call_fn_body_def seq_def)
  show ?thesis
    using e2 fs(1) inc [OF e2] cf
    by (simp add: effectFn_Suc effectFn_body_def is_increment_def s0_def [symmetric] seq_def)
qed

lemma increments_diverge_mult: "takes_turns e s \<Longrightarrow> effectFn (7 * k) e s = None"
proof (induction k arbitrary: e s)
  case 0
  show ?case by (simp add: effectFn_0)
next
  case (Suc k)
  have eq: "7 * Suc k = Suc (Suc (Suc (Suc (Suc (Suc (Suc (7 * k)))))))"
    by simp
  show ?case
    unfolding eq by (rule increment_step [OF Suc.IH Suc.prems])
qed

lemma increments_diverge: "takes_turns e s \<Longrightarrow> effectFn n e s = None"
proof (rule ccontr)
  assume p: "takes_turns e s" and "effectFn n e s \<noteq> None"
  then obtain r where "effectFn n e s = Some r" by auto
  from effectFn_bound [OF this, of "7 * n"] increments_diverge_mult [OF p, of n] show False
    by simp
qed

lemma increments_never_return:
  "effect n (Fn inc_fn (Lit Undefined)) ([], None) None False counter_state = None"
proof (cases n)
  case 0
  then show ?thesis by (simp add: effect_0)
next
  case (Suc m)
  have l: "length (effectFns counter_state) = 1"
    by code_simp
  show ?thesis
    using increments_diverge [OF takes_turns_start, of m]
    by (simp add: Suc effect_Suc effect_body_def l seq_def)
qed

text \<open>
  C2, as the code has it. \<open>trigger\<close> leaves out the active effect and no other: with a
  second effect that reads and writes the same key, the write of each runs the other. For
  the two effects \<open>() => { if (proxyData.count !== 4) proxyData.count++ }\<close> the one write
  \<open>proxyData.count = 0\<close> from outside starts each of them three times, an effect being
  started again inside its own run (effect 0 had been started twice before the write and
  five times after it), where the claim has one run for one external write. When the
  writes are unconditional, as for \<open>() => { proxyData.count++ }\<close> registered twice, the
  registration of the second effect does not return (here under the bound 80; under every
  bound in the theorem that follows).
\<close>

theorem effects_run_each_other_counterexample:
  "activeEffect capped_state = None
   \<and> subscribers capped_state 0 (Name ''count'') = [0, 1]
   \<and> runs_of 0 (trace capped_state) = 2
   \<and> is_normal (the capped_write)
   \<and> map_option (trace \<circ> state_of) capped_write
       = Some (trace capped_state @
               [Triggered 0 (Name ''count'') SET (Num 0),
                Ran 0, Tracked 0 0 (Name ''count''), Tracked 0 0 (Name ''count''),
                Triggered 0 (Name ''count'') SET (Num 1),
                Ran 1, Tracked 1 0 (Name ''count''), Tracked 1 0 (Name ''count''),
                Triggered 0 (Name ''count'') SET (Num 2),
                Ran 0, Tracked 0 0 (Name ''count''), Tracked 0 0 (Name ''count''),
                Triggered 0 (Name ''count'') SET (Num 3),
                Ran 1, Tracked 1 0 (Name ''count''), Tracked 1 0 (Name ''count''),
                Triggered 0 (Name ''count'') SET (Num 4),
                Ran 0, Tracked 0 0 (Name ''count''),
                Ran 1, Tracked 1 0 (Name ''count'')])
   \<and> runs_of 0 (trace (final capped_write)) = 5
   \<and> effect 80 (Fn inc_fn (Lit Undefined)) ([], None) None False counter_state = None"
  by code_simp

text \<open>
  C2, amended. Whatever the target, key, type and value, the effects that \<open>trigger\<close>
  assembles never include the effect that is active when it is called. So while an
  effect is the only one in the sets of a target, the \<open>trigger\<close> of a write it makes
  during its own run runs nothing and returns, with or without an error of the search
  through the sets; and a write from outside, of a key whose only subscriber it is,
  calls its effect function once and nothing else. For
  \<open>proxyData.count++\<close> inside a single effect: its registration runs it once (\<open>count\<close>
  goes from 1 to 2, and the \<open>trigger\<close> of its own write runs nothing), and an outside
  write of 10 runs it exactly once more (\<open>count\<close> is 11 afterwards); both return.
  The exclusion does not reach a second effect: when \<open>proxyData.count++\<close> is
  registered a second time, each of the two effects runs the other in the \<open>trigger\<close> of
  its write, and the registration returns under no bound on the depth of the calls.
\<close>

theorem trigger_excludes_active_effect:
  "(\<forall>s depsMap target key type newVal fs e.
      effectsToRun s depsMap target key type newVal = Inr fs \<and> activeEffect s = Some e
      \<longrightarrow> e \<notin> set fs)
   \<and> (\<forall>n s depsMap target key type newVal e.
        map_of (effectsBuckets s) target = Some depsMap \<and> activeEffect s = Some e
        \<and> (\<forall>k es. (k, es) \<in> set depsMap \<longrightarrow> set es \<subseteq> {e})
        \<longrightarrow> (\<exists>out. trigger (Suc (Suc n)) target key type newVal s = Some out
                  \<and> state_of out = emit (Triggered target key type newVal) s))
   \<and> (\<forall>n s target key newVal e.
        subscribers s target key = [e] \<and> activeEffect s = None
        \<and> scheduler (effectFns s ! e) = None \<and> \<not> (isArray s target \<and> key = Name ''length'')
        \<longrightarrow> trigger (Suc (Suc (Suc n))) target key SET newVal s
              = seq (effectFn (Suc n) e (emit (Triggered target key SET newVal) s))
                  (\<lambda>_ s1. ret () s1))
   \<and> trace counter_state
       = [Ran 0, Tracked 0 0 (Name ''count''), Triggered 0 (Name ''count'') SET (Num 2)]
   \<and> map_option fst (get_any 5 0 (Name ''count'') 0 counter_state) = Some (Num 2)
   \<and> subscribers counter_state 0 (Name ''count'') = [0]
   \<and> map_option (trace \<circ> state_of) (assign 1 (Name ''count'') (Num 10) counter_state)
       = Some (trace counter_state @
               [Triggered 0 (Name ''count'') SET (Num 10),
                Ran 0, Tracked 0 0 (Name ''count''), Triggered 0 (Name ''count'') SET (Num 11)])
   \<and> map_option fst (get_any 5 0 (Name ''count'') 0
                        (final (assign 1 (Name ''count'') (Num 10) counter_state)))
       = Some (Num 11)
   \<and> (\<forall>n. effect n (Fn inc_fn (Lit Undefined)) ([], None) None False counter_state = None)"
proof -
  have g: "\<forall>s depsMap target key type newVal fs e.
      effectsToRun s depsMap target key type newVal = Inr fs \<and> activeEffect s = Some e
      \<longrightarrow> e \<notin> set fs"
    using effectsToRun_excludes_active by blast
  have o: "\<forall>n s depsMap target key type newVal e.
        map_of (effectsBuckets s) target = Some depsMap \<and> activeEffect s = Some e
        \<and> (\<forall>k es. (k, es) \<in> set depsMap \<longrightarrow> set es \<subseteq> {e})
        \<longrightarrow> (\<exists>out. trigger (Suc (Suc n)) target key type newVal s = Some out
                  \<and> state_of out = emit (Triggered target key type newVal) s)"
    using trigger_own_write by blast
  have x: "\<forall>n s target key newVal e.
        subscribers s target key = [e] \<and> activeEffect s = None
        \<and> scheduler (effectFns s ! e) = None \<and> \<not> (isArray s target \<and> key = Name ''length'')
        \<longrightarrow> trigger (Suc (Suc (Suc n))) target key SET newVal s
              = seq (effectFn (Suc n) e (emit (Triggered target key SET newVal) s))
                  (\<lambda>_ s1. ret () s1)"
    using trigger_single by blast
  have 1: "trace counter_state
       = [Ran 0, Tracked 0 0 (Name ''count''), Triggered 0 (Name ''count'') SET (Num 2)]"
    by code_simp
  have 2: "map_option fst (get_any 5 0 (Name ''count'') 0 counter_state) = Some (Num 2)"
    by code_simp
  have 3: "subscribers counter_state 0 (Name ''count'') = [0]"
    by code_simp
  have 4: "map_option (trace \<circ> state_of) (assign 1 (Name ''count'') (Num 10) counter_state)
       = Some (trace counter_state @
               [Triggered 0 (Name ''count'') SET (Num 10),
                Ran 0, Tracked 0 0 (Name ''count''), Triggered 0 (Name ''count'') SET (Num 11)])"
    by code_simp
  have 5: "map_option fst (get_any 5 0 (Name ''count'') 0
                        (final (assign 1 (Name ''count'') (Num 10) counter_state)))
       = Some (Num 11)"
    by code_simp
  have dv: "\<forall>n. effect n (Fn inc_fn (Lit Undefined)) ([], None) None False counter_state = None"
    by (simp add: increments_never_return)
  show ?thesis by (intro conjI) (rule g o x 1 2 3 4 5 dv)+
qed

theorem trigger_excludes_active_effect_witness:
  "activeEffect (push_effect 0 counter_state) = Some 0
   \<and> map_of (effectsBuckets (push_effect 0 counter_state)) 0 = Some [(Name ''count'', [0])]
   \<and> effectsToRun (push_effect 0 counter_state) [(Name ''count'', [0])] 0 (Name ''count'') SET (Num 2)
       = Inr []
   \<and> 0 \<notin> set ([] :: nat list)
   \<and> (\<exists>out. trigger 2 0 (Name ''count'') SET (Num 2) (push_effect 0 counter_state) = Some out
          \<and> state_of out
              = emit (Triggered 0 (Name ''count'') SET (Num 2)) (push_effect 0 counter_state))
   \<and> subscribers counter_state 0 (Name ''count'') = [0]
   \<and> activeEffect counter_state = None
   \<and> trigger 3 0 (Name ''count'') SET (Num 10) counter_state
       = seq (effectFn 1 0 (emit (Triggered 0 (Name ''count'') SET (Num 10)) counter_state))
           (\<lambda>_ s1. ret () s1)"
proof -
  have a: "activeEffect (push_effect 0 counter_state) = Some 0"
    by (simp add: push_effect_def)
  have m: "map_of (effectsBuckets (push_effect 0 counter_state)) 0 = Some [(Name ''count'', [0])]"
    by code_simp
  have b: "effectsToRun (push_effect 0 counter_state) [(Name ''count'', [0])] 0 (Name ''count'') SET (Num 2)
       = Inr []"
    by code_simp
  have al: "\<forall>k es. (k, es) \<in> set [(Name ''count'', [0::nat])] \<longrightarrow> set es \<subseteq> {0}"
    by simp
  have c: "subscribers counter_state 0 (Name ''count'') = [0]" "activeEffect counter_state = None"
    "scheduler (effectFns counter_state ! 0) = None"
    "\<not> (isArray counter_state 0 \<and> Name ''count'' = Name ''length'')"
    by code_simp+
  note ex = trigger_excludes_active_effect [THEN conjunct1, rule_format, OF conjI, OF b a]
  note own = trigger_excludes_active_effect [THEN conjunct2, THEN conjunct1,
      rule_format, OF conjI, OF m conjI, OF a al, of 0 "Name ''count''" SET "Num 2"]
  note one = trigger_excludes_active_effect [THEN conjunct2, THEN conjunct2,
      THEN conjunct1, rule_format, OF conjI, OF c(1) conjI, OF c(2) conjI, OF c(3) c(4),
      of 0 "Num 10"]
  from ex own one a m b c(1,2) show ?thesis
    by (simp add: numeral_2_eq_2 numeral_3_eq_3)
qed

end
